theory Spec2Isabelle
  imports Main "HOL-Library.Sublist" "HOL-Library.Multiset" "HOL-Library.Product_Lexorder"
begin

section \<open>Strings\<close>

text \<open>
  A Python \<^verbatim>\<open>str\<close> of the parsers and of the classifier is a \<^typ>\<open>string\<close>: a
  \<^typ>\<open>char\<close> stands for the code point of the same number, so these strings are the
  texts whose code points lie below 256 (ASCII and the Latin-1 letters of Spanish).
  The character classes and \<^verbatim>\<open>str.lower\<close> below are Python's, restricted to
  that range.
\<close>

definition cp :: "char \<Rightarrow> nat" where
  "cp c = of_char c"

text \<open>\<^verbatim>\<open>str.lower()\<close>: A-Z and the Latin-1 capitals (all of 0xC0-0xDE but the
  multiplication sign 0xD7) move up by 32; every other code point below 256 stays.\<close>

definition lower_chr :: "char \<Rightarrow> char" where
  "lower_chr c =
     (if (65 \<le> cp c \<and> cp c \<le> 90) \<or> (192 \<le> cp c \<and> cp c \<le> 222 \<and> cp c \<noteq> 215)
      then char_of (cp c + 32) else c)"

definition lower :: "string \<Rightarrow> string" where
  "lower s = map lower_chr s"

text \<open>\<^verbatim>\<open>str(n)\<close> for a non-negative integer: its decimal digits.\<close>

fun str_nat :: "nat \<Rightarrow> string" where
  "str_nat n =
     (if n < 10 then [char_of (48 + n)]
      else str_nat (n div 10) @ [char_of (48 + n mod 10)])"

declare str_nat.simps [simp del]

text \<open>\<^verbatim>\<open>str.isspace\<close> below 256, which is also the class \<^verbatim>\<open>\s\<close> of \<^verbatim>\<open>re\<close> there, and
  the decimal digits \<^verbatim>\<open>\d\<close> there.\<close>

definition is_space :: "char \<Rightarrow> bool" where
  "is_space c = ((9 \<le> cp c \<and> cp c \<le> 13) \<or> (28 \<le> cp c \<and> cp c \<le> 32) \<or> cp c = 133 \<or> cp c = 160)"

definition is_digit :: "char \<Rightarrow> bool" where
  "is_digit c = (48 \<le> cp c \<and> cp c \<le> 57)"

text \<open>\<^verbatim>\<open>s.strip()\<close>\<close>

definition strip :: "string \<Rightarrow> string" where
  "strip s = rev (dropWhile is_space (rev (dropWhile is_space s)))"

text \<open>\<^verbatim>\<open>s.replace(old, new)\<close>: the occurrences of \<open>old\<close> from the left, none overlapping
  another; an empty \<open>old\<close> puts \<open>new\<close> around every character.\<close>

fun replace_from :: "'a list \<Rightarrow> 'a list \<Rightarrow> 'a list \<Rightarrow> 'a list" where
  "replace_from old new [] = []"
| "replace_from old new (c # cs) =
     (if prefix old (c # cs) then new @ replace_from old new (drop (length old - 1) cs)
      else c # replace_from old new cs)"

definition replace :: "'a list \<Rightarrow> 'a list \<Rightarrow> 'a list \<Rightarrow> 'a list" where
  "replace old new s =
     (if old = [] then new @ concat (map (\<lambda>c. c # new) s) else replace_from old new s)"

text \<open>\<^verbatim>\<open>s.split(sep, 1)\<close> for a non-empty \<open>sep\<close>: the text before the first occurrence
  of \<open>sep\<close> and the text after it, or \<open>None\<close> when \<open>sep\<close> does not occur
  (\<^verbatim>\<open>sep in s\<close> is false and the split has one part).\<close>

fun split_once :: "'a list \<Rightarrow> 'a list \<Rightarrow> ('a list \<times> 'a list) option" where
  "split_once sep [] = None"
| "split_once sep (c # cs) =
     (if prefix sep (c # cs) then Some ([], drop (length sep) (c # cs))
      else map_option (\<lambda>(before, after). (c # before, after)) (split_once sep cs))"

text \<open>\<^verbatim>\<open>int(s)\<close> on a string of decimal digits.\<close>

definition int_of_digits :: "string \<Rightarrow> nat" where
  "int_of_digits s = foldl (\<lambda>n c. 10 * n + (cp c - 48)) 0 s"

section \<open>Regular expressions\<close>

text \<open>
  The patterns of the program use single characters and character classes, greedy
  counted repetitions of a class, capturing groups (none inside another),
  alternatives, the word boundary \<^verbatim>\<open>\b\<close>, the end anchor \<^verbatim>\<open>$\<close> and a repeated reference to
  a group. A pattern is a list of such items, matched from the left.
\<close>

datatype 'a rx =
    Cls "'a \<Rightarrow> bool"
  | Rep nat "nat option" "'a \<Rightarrow> bool"
  | Grp "'a rx list"
  | Alt "'a rx list list"
  | Bnd "'a \<Rightarrow> bool"
  | Eos 'a
  | RepRef nat "nat option" nat

text \<open>
  A matcher state: the character before the current position (for \<^verbatim>\<open>\b\<close>), the groups
  captured so far in the order they closed, and the text still ahead.
\<close>

type_synonym 'a mstate = "'a option \<times> 'a list list \<times> 'a list"

text \<open>The state after \<open>k\<close> more characters of the text are consumed.\<close>

definition advance :: "nat \<Rightarrow> 'a mstate \<Rightarrow> 'a mstate" where
  "advance k st =
     (case st of (prev, caps, s) \<Rightarrow>
        (if k = 0 \<or> s = [] then prev else Some (last (take k s)), caps, drop k s))"

text \<open>How many copies of \<open>g\<close> in a row the text starts with.\<close>

function rep_count :: "'a list \<Rightarrow> 'a list \<Rightarrow> nat" where
  "rep_count g s =
     (if g \<noteq> [] \<and> prefix g s then Suc (rep_count g (drop (length g) s)) else 0)"
  by pat_completeness auto
termination
  by (relation "measure (\<lambda>(g, s). length s)") (auto simp: prefix_def)

declare rep_count.simps [simp del]

text \<open>
  The backtracking matcher as a list of successes: every way an item (or a sequence of
  items) can match at a state, in the order in which a backtracking engine tries them
  (a greedy repetition tries the longest first, an alternative its left branch first).
  The first state of the list for a whole pattern is the match Python reports.
  \<open>Rep lo hi P\<close> is \<^verbatim>\<open>P{lo,hi}\<close> (\<open>None\<close>: no upper bound), \<open>Bnd W\<close> is \<^verbatim>\<open>\b\<close> for the word
  class \<open>W\<close>, \<open>Eos nl\<close> is \<^verbatim>\<open>$\<close> (the end, or just before a final line break \<open>nl\<close>),
  \<open>RepRef lo hi k\<close> is \<^verbatim>\<open>\k{lo,hi}\<close> with groups counted from 0.
\<close>

fun rx_item :: "'a rx \<Rightarrow> 'a mstate \<Rightarrow> 'a mstate list"
  and rx_seq :: "'a rx list \<Rightarrow> 'a mstate \<Rightarrow> 'a mstate list" where
  "rx_item (Cls P) st =
     (case st of (prev, caps, s) \<Rightarrow>
        (case s of [] \<Rightarrow> [] | c # cs \<Rightarrow> if P c then [(Some c, caps, cs)] else []))"
| "rx_item (Rep lo hi P) st =
     (case st of (prev, caps, s) \<Rightarrow>
        (let n = length (takeWhile P s);
             top = (case hi of None \<Rightarrow> n | Some h \<Rightarrow> min h n)
         in map (\<lambda>k. advance k st) (rev [lo..<Suc top])))"
| "rx_item (Grp rs) st =
     (case st of (prev, caps, s) \<Rightarrow>
        map (\<lambda>(prev', caps', s'). (prev', caps' @ [take (length s - length s') s], s'))
          (rx_seq rs st))"
| "rx_item (Alt branches) st = concat (map (\<lambda>rs. rx_seq rs st) branches)"
| "rx_item (Bnd W) st =
     (case st of (prev, caps, s) \<Rightarrow>
        (if (case prev of None \<Rightarrow> False | Some c \<Rightarrow> W c) \<noteq> (case s of [] \<Rightarrow> False | c # cs \<Rightarrow> W c)
         then [st] else []))"
| "rx_item (Eos nl) st =
     (case st of (prev, caps, s) \<Rightarrow> if s = [] \<or> s = [nl] then [st] else [])"
| "rx_item (RepRef lo hi k) st =
     (case st of (prev, caps, s) \<Rightarrow>
        (if length caps \<le> k then []
         else if caps ! k = [] then [st]
         else
           let n = rep_count (caps ! k) s;
               top = (case hi of None \<Rightarrow> n | Some h \<Rightarrow> min h n)
           in map (\<lambda>j. advance (j * length (caps ! k)) st) (rev [lo..<Suc top])))"
| "rx_seq [] st = [st]"
| "rx_seq (r # rs) st = concat (map (rx_seq rs) (rx_item r st))"

text \<open>\<^verbatim>\<open>pattern.match(s)\<close>: the groups of the first success at the start of \<open>s\<close>.\<close>

definition re_match :: "'a rx list \<Rightarrow> 'a list \<Rightarrow> 'a list list option" where
  "re_match pat s =
     (case rx_seq pat (None, [], s) of [] \<Rightarrow> None | (prev, caps, rest) # others \<Rightarrow> Some caps)"

text \<open>One literal character, a literal text, and a set of characters as items.\<close>

definition chr :: "'a \<Rightarrow> 'a rx" where
  "chr c = Cls (\<lambda>x. x = c)"

definition lit :: "'a list \<Rightarrow> 'a rx list" where
  "lit s = map chr s"

definition one_of :: "'a list \<Rightarrow> 'a rx" where
  "one_of cs = Cls (\<lambda>x. x \<in> set cs)"

section \<open>data_parsers.py: dates and times\<close>

text \<open>A naive \<^verbatim>\<open>datetime.datetime\<close> (no time zone), to the second.\<close>

record py_datetime =
  year :: nat
  month :: nat
  day :: nat
  hour :: nat
  minute :: nat
  second :: nat

definition is_leap :: "nat \<Rightarrow> bool" where
  "is_leap y = (y mod 4 = 0 \<and> (y mod 100 \<noteq> 0 \<or> y mod 400 = 0))"

definition days_in_month :: "nat \<Rightarrow> nat \<Rightarrow> nat" where
  "days_in_month y m =
     (if m = 2 then (if is_leap y then 29 else 28)
      else if m = 4 \<or> m = 6 \<or> m = 9 \<or> m = 11 then 30 else 31)"

text \<open>The constructor \<^verbatim>\<open>datetime(year, month, day, hour, minute, second)\<close>; \<open>None\<close> is
  its \<^verbatim>\<open>ValueError\<close>.\<close>

definition make_datetime :: "nat \<Rightarrow> nat \<Rightarrow> nat \<Rightarrow> nat \<Rightarrow> nat \<Rightarrow> nat \<Rightarrow> py_datetime option" where
  "make_datetime y m d h mi s =
     (if 1 \<le> y \<and> y \<le> 9999 \<and> 1 \<le> m \<and> m \<le> 12 \<and> 1 \<le> d \<and> d \<le> days_in_month y m
         \<and> h < 24 \<and> mi < 60 \<and> s < 60
      then Some \<lparr>year = y, month = m, day = d, hour = h, minute = mi, second = s\<rparr>
      else None)"

text \<open>
  \<^verbatim>\<open>datetime.strptime\<close> turns a format into a regular expression, one named group per
  directive (a blank of the format becomes \<^verbatim>\<open>\s+\<close>), matches it at the start of the
  text ignoring case, and raises \<^verbatim>\<open>ValueError\<close> when it does not match or text remains.
  The groups of the directives used here, as the standard library writes them:
  \<^verbatim>\<open>%d\<close> is \<^verbatim>\<open>3[0-1]|[1-2]\d|0[1-9]|[1-9]| [1-9]\<close>, \<^verbatim>\<open>%m\<close> and \<^verbatim>\<open>%I\<close> are
  \<^verbatim>\<open>1[0-2]|0[1-9]|[1-9]\<close>, \<^verbatim>\<open>%Y\<close> is \<^verbatim>\<open>\d\d\d\d\<close>, \<^verbatim>\<open>%H\<close> is \<^verbatim>\<open>2[0-3]|[0-1]\d|\d\<close>,
  \<^verbatim>\<open>%M\<close> is \<^verbatim>\<open>[0-5]\d|\d\<close>, \<^verbatim>\<open>%S\<close> is \<^verbatim>\<open>6[0-1]|[0-5]\d|\d\<close>, \<^verbatim>\<open>%p\<close> is \<^verbatim>\<open>am|pm\<close>
  (the program never sets a locale).
\<close>

definition dir_d :: "char rx" where
  "dir_d = Grp [Alt [[chr CHR ''3'', one_of ''01''], [one_of ''12'', Cls is_digit],
                     [chr CHR ''0'', one_of ''123456789''], [one_of ''123456789''],
                     [chr CHR '' '', one_of ''123456789'']]]"

definition dir_m :: "char rx" where
  "dir_m = Grp [Alt [[chr CHR ''1'', one_of ''012''], [chr CHR ''0'', one_of ''123456789''],
                     [one_of ''123456789'']]]"

definition dir_Y :: "char rx" where
  "dir_Y = Grp [Cls is_digit, Cls is_digit, Cls is_digit, Cls is_digit]"

definition dir_I :: "char rx" where
  "dir_I = Grp [Alt [[chr CHR ''1'', one_of ''012''], [chr CHR ''0'', one_of ''123456789''],
                     [one_of ''123456789'']]]"

definition dir_H :: "char rx" where
  "dir_H = Grp [Alt [[chr CHR ''2'', one_of ''0123''], [one_of ''01'', Cls is_digit],
                     [Cls is_digit]]]"

definition dir_M :: "char rx" where
  "dir_M = Grp [Alt [[one_of ''012345'', Cls is_digit], [Cls is_digit]]]"

definition dir_S :: "char rx" where
  "dir_S = Grp [Alt [[chr CHR ''6'', one_of ''01''], [one_of ''012345'', Cls is_digit],
                     [Cls is_digit]]]"

definition dir_p :: "char rx" where
  "dir_p = Grp [Alt [[one_of ''aA'', one_of ''mM''], [one_of ''pP'', one_of ''mM'']]]"

text \<open>\<^verbatim>\<open>strptime(s, "%d/%m/%Y %I:%M%p")\<close> (line 72). Hour 12 is 0 before noon and 12
  after it; the other hours gain 12 after noon.\<close>

definition strptime_whatsapp :: "string \<Rightarrow> py_datetime option" where
  "strptime_whatsapp data_string =
     (case rx_seq [dir_d, chr CHR ''/'', dir_m, chr CHR ''/'', dir_Y, Rep 1 None is_space,
                   dir_I, chr CHR '':'', dir_M, dir_p] (None, [], data_string) of
        (prev, [d, m, Y, I, M, p], []) # others \<Rightarrow>
          (let h = int_of_digits I;
               h' = (if lower p = ''am'' then (if h = 12 then 0 else h)
                     else (if h = 12 then h else h + 12))
           in make_datetime (int_of_digits Y) (int_of_digits m) (int_of_digits (strip d))
                h' (int_of_digits M) 0)
      | _ \<Rightarrow> None)"

text \<open>\<^verbatim>\<open>strptime(s, "%d.%m.%Y %H:%M:%S")\<close> (line 148).\<close>

definition strptime_telegram :: "string \<Rightarrow> py_datetime option" where
  "strptime_telegram data_string =
     (case rx_seq [dir_d, chr CHR ''.'', dir_m, chr CHR ''.'', dir_Y, Rep 1 None is_space,
                   dir_H, chr CHR '':'', dir_M, chr CHR '':'', dir_S] (None, [], data_string) of
        (prev, [d, m, Y, H, M, S], []) # others \<Rightarrow>
          make_datetime (int_of_digits Y) (int_of_digits m) (int_of_digits (strip d))
            (int_of_digits H) (int_of_digits M) (int_of_digits S)
      | _ \<Rightarrow> None)"

section \<open>data_parsers.py: the WhatsApp export\<close>

text \<open>A row of the returned DataFrame, columns \<^verbatim>\<open>datetime\<close>, \<^verbatim>\<open>sender\<close>, \<^verbatim>\<open>message\<close>.\<close>

record msg_row =
  datetime :: py_datetime
  sender :: string
  message :: string

text \<open>Lines 39-42, compiled with \<^verbatim>\<open>re.IGNORECASE\<close>:
  \<^verbatim>\<open>^(\d{1,2}\/\d{1,2}\/\d{4}),\s*(\d{1,2}:\d{2}\s?[ap]\.?m\.?)\s*-\s*(.*)$\<close>\<close>

definition whatsapp_pattern :: "char rx list" where
  "whatsapp_pattern =
     [Grp [Rep 1 (Some 2) is_digit, chr CHR ''/'', Rep 1 (Some 2) is_digit, chr CHR ''/'',
           Rep 4 (Some 4) is_digit],
      chr CHR '','', Rep 0 None is_space,
      Grp [Rep 1 (Some 2) is_digit, chr CHR '':'', Rep 2 (Some 2) is_digit,
           Rep 0 (Some 1) is_space, one_of ''apAP'', Rep 0 (Some 1) (\<lambda>c. c = CHR ''.''),
           one_of ''mM'', Rep 0 (Some 1) (\<lambda>c. c = CHR ''.'')],
      Rep 0 None is_space, chr CHR ''-'', Rep 0 None is_space,
      Grp [Rep 0 None (\<lambda>c. c \<noteq> CHR 0x0A)], Eos (CHR 0x0A)]"

text \<open>Lines 60-68: the chain of \<^verbatim>\<open>replace\<close> calls on the time.\<close>

definition normalize_time :: "string \<Rightarrow> string" where
  "normalize_time time_str =
     replace '' '' []
       (replace ''.'' []
         (replace ''p.m.'' ''PM''
           (replace ''a.m.'' ''AM''
             (replace ''p. m.'' ''PM''
               (replace ''a. m.'' ''AM''
                 (replace '' '' [] time_str))))))"

text \<open>Lines 48-87: what one line of the file adds to \<open>data\<close>; \<open>None\<close> is a
  \<^verbatim>\<open>continue\<close>.\<close>

definition whatsapp_line :: "string \<Rightarrow> msg_row option" where
  "whatsapp_line line =
     (case re_match whatsapp_pattern (strip line) of
        Some [date_str, time_str, content] \<Rightarrow>
          (case strptime_whatsapp (date_str @ '' '' @ normalize_time time_str) of
             None \<Rightarrow> None
           | Some dt \<Rightarrow>
               (case split_once '': '' content of
                  Some (sender', message') \<Rightarrow>
                    Some \<lparr>datetime = dt, sender = sender', message = message'\<rparr>
                | None \<Rightarrow>
                    Some \<lparr>datetime = dt, sender = ''SYSTEM'', message = content\<rparr>))
      | _ \<Rightarrow> None)"

fun whatsapp_loop :: "string list \<Rightarrow> msg_row list \<Rightarrow> msg_row list" where
  "whatsapp_loop [] data = data"
| "whatsapp_loop (line # lines) data =
     (case whatsapp_line line of
        None \<Rightarrow> whatsapp_loop lines data
      | Some row \<Rightarrow> whatsapp_loop lines (data @ [row]))"

text \<open>\<^verbatim>\<open>parse_whatsapp_lines(filepath)\<close> on the lines of the file (each with its line
  break); \<open>None\<close> is a file that cannot be opened or read, which both handlers turn into
  the empty frame.\<close>

definition parse_whatsapp_lines :: "string list option \<Rightarrow> msg_row list" where
  "parse_whatsapp_lines file =
     (case file of None \<Rightarrow> [] | Some lines \<Rightarrow> whatsapp_loop lines [])"

section \<open>data_parsers.py: the Telegram export\<close>

text \<open>
  What the loop reads of one \<^verbatim>\<open>div\<close> of \<^verbatim>\<open>msg_divs\<close>: its class list, the date
  \<^verbatim>\<open>div\<close> (\<open>None\<close> when \<^verbatim>\<open>find\<close> returns \<^verbatim>\<open>None\<close>; inside, its \<^verbatim>\<open>title\<close> attribute when it
  has one), the stripped text of the \<^verbatim>\<open>from_name\<close> \<^verbatim>\<open>div\<close> and the stripped text of the
  \<^verbatim>\<open>text\<close> \<^verbatim>\<open>div\<close> (each \<open>None\<close> when \<^verbatim>\<open>find\<close> returns \<^verbatim>\<open>None\<close>; a tag that was found
  is true in Python whatever it holds).
\<close>

record msg_div =
  classes :: "string list"
  date_div :: "string option option"
  from_div :: "string option"
  text_div :: "string option"

text \<open>Line 146: \<^verbatim>\<open>date_str.split(" UTC")[0].strip()\<close>\<close>

definition before_utc :: "string \<Rightarrow> string" where
  "before_utc date_str =
     strip (case split_once '' UTC'' date_str of None \<Rightarrow> date_str | Some (before, after) \<Rightarrow> before)"

text \<open>Lines 136-151: the timestamp of a \<^verbatim>\<open>div\<close> that gets past the three \<^verbatim>\<open>continue\<close>s
  for a service message, a missing date or title, and a date that does not parse.\<close>

definition div_datetime :: "msg_div \<Rightarrow> py_datetime option" where
  "div_datetime msg_div =
     (if ''service'' \<in> set (classes msg_div) then None
      else case date_div msg_div of
             None \<Rightarrow> None
           | Some None \<Rightarrow> None
           | Some (Some date_str) \<Rightarrow> strptime_telegram (before_utc date_str))"

text \<open>Lines 135-174: one turn of the loop, from the carried \<open>last_sender\<close> to the new
  one and the row appended, if any.\<close>

definition telegram_step :: "msg_div \<Rightarrow> string option \<Rightarrow> string option \<times> msg_row option" where
  "telegram_step msg_div last_sender =
     (case div_datetime msg_div of
        None \<Rightarrow> (last_sender, None)
      | Some dt \<Rightarrow>
          (let (sender', last_sender') =
                 (case from_div msg_div of
                    Some name \<Rightarrow> (name, Some name)
                  | None \<Rightarrow>
                      (case last_sender of
                         None \<Rightarrow> (''Unknown'', last_sender)
                       | Some name \<Rightarrow> (if name = [] then ''Unknown'' else name, last_sender)))
           in case text_div msg_div of
                None \<Rightarrow> (last_sender', None)
              | Some message_text \<Rightarrow>
                  if message_text = [] then (last_sender', None)
                  else (last_sender',
                        Some \<lparr>datetime = dt, sender = sender', message = message_text\<rparr>)))"

fun telegram_loop :: "msg_div list \<Rightarrow> string option \<Rightarrow> msg_row list \<Rightarrow> msg_row list" where
  "telegram_loop [] last_sender messages_list = messages_list"
| "telegram_loop (msg_div # msg_divs) last_sender messages_list =
     (case telegram_step msg_div last_sender of
        (last_sender', None) \<Rightarrow> telegram_loop msg_divs last_sender' messages_list
      | (last_sender', Some row) \<Rightarrow> telegram_loop msg_divs last_sender' (messages_list @ [row]))"

text \<open>\<^verbatim>\<open>parse_telegram_html(filepath)\<close> on the \<^verbatim>\<open>div\<close>s that \<^verbatim>\<open>find_all\<close> returns, in
  document order; \<open>None\<close> is a file that cannot be opened or parsed. Line 132 sets
  \<open>last_sender\<close> to \<^verbatim>\<open>None\<close> in every call.\<close>

definition parse_telegram_html :: "msg_div list option \<Rightarrow> msg_row list" where
  "parse_telegram_html file =
     (case file of None \<Rightarrow> [] | Some msg_divs \<Rightarrow> telegram_loop msg_divs None [])"

text \<open>The sender fields the scan reads, in document order: line 153 is reached only by a
  \<^verbatim>\<open>div\<close> that got past the \<^verbatim>\<open>continue\<close>s of lines 136-151.\<close>

definition senders_read :: "msg_div list \<Rightarrow> string list" where
  "senders_read msg_divs =
     List.map_filter (\<lambda>msg_div. if div_datetime msg_div = None then None else from_div msg_div)
       msg_divs"

section \<open>Substitution and search with a pattern\<close>

text \<open>\<^verbatim>\<open>pattern.match\<close> at one position of a scan: the length of the first success and
  its groups.\<close>

definition match_at :: "'a rx list \<Rightarrow> 'a option \<Rightarrow> 'a list \<Rightarrow> (nat \<times> 'a list list) option" where
  "match_at pat prev s =
     (case rx_seq pat (prev, [], s) of
        [] \<Rightarrow> None
      | (prev', caps, rest) # others \<Rightarrow> Some (length s - length rest, caps))"

text \<open>
  The scan that \<^verbatim>\<open>sub\<close> and \<^verbatim>\<open>findall\<close> share: from the left, the leftmost match at
  each position is taken and the scan goes on behind it; a character at which nothing
  matches is kept. No pattern of this program matches the empty text; the scan keeps the
  character after an empty match and moves on.
\<close>

datatype 'a piece = Kept 'a | Matched "'a list" "'a list list"

fun re_pieces :: "'a rx list \<Rightarrow> 'a option \<Rightarrow> 'a list \<Rightarrow> 'a piece list" where
  "re_pieces pat prev [] =
     (case match_at pat prev [] of None \<Rightarrow> [] | Some (n, caps) \<Rightarrow> [Matched [] caps])"
| "re_pieces pat prev (c # cs) =
     (case match_at pat prev (c # cs) of
        None \<Rightarrow> Kept c # re_pieces pat (Some c) cs
      | Some (n, caps) \<Rightarrow>
          if n = 0 then Matched [] caps # Kept c # re_pieces pat (Some c) cs
          else Matched (take n (c # cs)) caps
                 # re_pieces pat (Some (last (take n (c # cs)))) (drop (n - 1) cs))"

text \<open>\<^verbatim>\<open>pattern.sub(repl, s)\<close>, the replacement as a function of the groups, and
  \<^verbatim>\<open>pattern.findall(s)\<close> for a pattern without groups.\<close>

definition render :: "('a list list \<Rightarrow> 'a list) \<Rightarrow> 'a piece \<Rightarrow> 'a list" where
  "render repl p = (case p of Kept c \<Rightarrow> [c] | Matched m caps \<Rightarrow> repl caps)"

definition re_sub :: "'a rx list \<Rightarrow> ('a list list \<Rightarrow> 'a list) \<Rightarrow> 'a list \<Rightarrow> 'a list" where
  "re_sub pat repl s = concat (map (render repl) (re_pieces pat None s))"

definition re_findall :: "'a rx list \<Rightarrow> 'a list \<Rightarrow> 'a list list" where
  "re_findall pat s =
     concat (map (\<lambda>p. case p of Kept c \<Rightarrow> [] | Matched m caps \<Rightarrow> [m]) (re_pieces pat None s))"

section \<open>text_cleaning.py\<close>

text \<open>
  The messages hold emoji, so a text of this module is the list of its code points
  (integers).
  \<open>u\<close> writes an ASCII literal as such a text.
\<close>

type_synonym ustr = "int list"

definition u :: "string \<Rightarrow> ustr" where
  "u s = map of_char s"

text \<open>\<^verbatim>\<open>str.isspace\<close>, which is also \<^verbatim>\<open>\s\<close>, over all of Unicode.\<close>

definition u_space :: "int \<Rightarrow> bool" where
  "u_space c =
     ((9 \<le> c \<and> c \<le> 13) \<or> (28 \<le> c \<and> c \<le> 32) \<or> c = 133 \<or> c = 160 \<or> c = 5760
      \<or> (8192 \<le> c \<and> c \<le> 8202) \<or> c = 8232 \<or> c = 8233 \<or> c = 8239 \<or> c = 8287 \<or> c = 12288)"

definition u_strip :: "ustr \<Rightarrow> ustr" where
  "u_strip s = rev (dropWhile u_space (rev (dropWhile u_space s)))"

text \<open>Lines 25-33, the class of \<^verbatim>\<open>EMOJI_PATTERN\<close>: U+1F600-1F64F, U+1F300-1F5FF,
  U+1F680-1F6FF, U+1F1E0-1F1FF.\<close>

definition is_emoji :: "int \<Rightarrow> bool" where
  "is_emoji c =
     ((0x1F600 \<le> c \<and> c \<le> 0x1F64F) \<or> (0x1F300 \<le> c \<and> c \<le> 0x1F5FF)
      \<or> (0x1F680 \<le> c \<and> c \<le> 0x1F6FF) \<or> (0x1F1E0 \<le> c \<and> c \<le> 0x1F1FF))"

definition EMOJI_PATTERN :: "int rx list" where
  "EMOJI_PATTERN = [Rep 1 None is_emoji]"

text \<open>\<^verbatim>\<open>extract_emojis(text)\<close>, lines 52-57.\<close>

definition extract_emojis :: "ustr \<Rightarrow> ustr" where
  "extract_emojis text' =
     (if u_strip text' = [] then []
      else let found_emojis = re_findall EMOJI_PATTERN text' in concat found_emojis)"

text \<open>
  A token of the spaCy \<^verbatim>\<open>Doc\<close>: \<^verbatim>\<open>token.text\<close>, \<^verbatim>\<open>token.lower_\<close>, \<^verbatim>\<open>token.lemma_\<close> and
  \<^verbatim>\<open>token.like_num\<close>.
\<close>

record token =
  tok_text :: ustr
  tok_lower :: ustr
  tok_lemma :: ustr
  tok_like_num :: bool

text \<open>
  What the module takes from its libraries and from the configuration: \<^verbatim>\<open>str.lower\<close>,
  the Unicode tables behind \<^verbatim>\<open>\w\<close> and \<^verbatim>\<open>\d\<close> beyond ASCII (alphanumeric and decimal
  code points), the loaded pipeline \<^verbatim>\<open>nlp = spacy.load("es_core_news_sm")\<close>, and the three
  stopword lists of lines 20-22.
\<close>

record text_env =
  str_lower :: "ustr \<Rightarrow> ustr"
  alnum_beyond_ascii :: "int \<Rightarrow> bool"
  decimal_beyond_ascii :: "int \<Rightarrow> bool"
  nlp :: "ustr \<Rightarrow> token list"
  stopwords_spacy :: "ustr list"
  stopwords_nltk :: "ustr list"
  CUSTOM_STOPWORDS :: "ustr list"

text \<open>Line 22: \<^verbatim>\<open>stopwords_spacy.union(stopwords_nltk).union(CUSTOM_STOPWORDS)\<close>\<close>

definition spanish_stopwords :: "text_env \<Rightarrow> ustr set" where
  "spanish_stopwords env =
     set (stopwords_spacy env) \<union> set (stopwords_nltk env) \<union> set (CUSTOM_STOPWORDS env)"

text \<open>The classes \<^verbatim>\<open>\d\<close> and \<^verbatim>\<open>\w\<close> of a \<^verbatim>\<open>str\<close> pattern.\<close>

definition u_digit :: "text_env \<Rightarrow> int \<Rightarrow> bool" where
  "u_digit env c = (if c < 128 then 48 \<le> c \<and> c \<le> 57 else decimal_beyond_ascii env c)"

definition u_word :: "text_env \<Rightarrow> int \<Rightarrow> bool" where
  "u_word env c =
     (if c < 128 then (48 \<le> c \<and> c \<le> 57) \<or> (65 \<le> c \<and> c \<le> 90) \<or> (97 \<le> c \<and> c \<le> 122) \<or> c = 95
      else alnum_beyond_ascii env c)"

text \<open>Line 24: \<^verbatim>\<open>https?://\S+|www\.\S+\<close>\<close>

definition URL_PATTERN :: "int rx list" where
  "URL_PATTERN =
     [Alt [lit (u ''http'') @ [Rep 0 (Some 1) (\<lambda>c. c = 115)] @ lit (u ''://'')
             @ [Rep 1 None (\<lambda>c. \<not> u_space c)],
           lit (u ''www.'') @ [Rep 1 None (\<lambda>c. \<not> u_space c)]]]"

text \<open>Line 34: \<^verbatim>\<open>@\w+\<close>\<close>

definition MENTION_PATTERN :: "text_env \<Rightarrow> int rx list" where
  "MENTION_PATTERN env = [chr 64, Rep 1 None (u_word env)]"

text \<open>Line 35: \<^verbatim>\<open>\+\d{1,3}[- ]?\d{6,14}\<close>\<close>

definition PHONE_PATTERN :: "text_env \<Rightarrow> int rx list" where
  "PHONE_PATTERN env =
     [chr 43, Rep 1 (Some 3) (u_digit env), Rep 0 (Some 1) (\<lambda>c. c = 45 \<or> c = 32),
      Rep 6 (Some 14) (u_digit env)]"

text \<open>Line 36: \<^verbatim>\<open>\b\d{1,2}[/-]\d{1,2}[/-]\d{2,4}\b\<close>\<close>

definition DATE_PATTERN :: "text_env \<Rightarrow> int rx list" where
  "DATE_PATTERN env =
     [Bnd (u_word env), Rep 1 (Some 2) (u_digit env), Cls (\<lambda>c. c = 47 \<or> c = 45),
      Rep 1 (Some 2) (u_digit env), Cls (\<lambda>c. c = 47 \<or> c = 45), Rep 2 (Some 4) (u_digit env),
      Bnd (u_word env)]"

text \<open>Line 37: \<^verbatim>\<open>\b\d{1,2}:\d{2}\b\<close>\<close>

definition TIME_PATTERN :: "text_env \<Rightarrow> int rx list" where
  "TIME_PATTERN env =
     [Bnd (u_word env), Rep 1 (Some 2) (u_digit env), chr 58, Rep 2 (Some 2) (u_digit env),
      Bnd (u_word env)]"

text \<open>Line 38: \<^verbatim>\<open>(.)\1{2,}\<close>\<close>

definition REPEATED_CHARS :: "int rx list" where
  "REPEATED_CHARS = [Grp [Cls (\<lambda>c. c \<noteq> 10)], RepRef 2 None 0]"

text \<open>Line 88, \<^verbatim>\<open>[^\w\s]\<close>, and line 90, \<^verbatim>\<open>\s+\<close>.\<close>

definition PUNCT_PATTERN :: "text_env \<Rightarrow> int rx list" where
  "PUNCT_PATTERN env = [Cls (\<lambda>c. \<not> u_word env c \<and> \<not> u_space c)]"

definition SPACES_PATTERN :: "int rx list" where
  "SPACES_PATTERN = [Rep 1 None u_space]"

text \<open>Lines 79-90: the text handed to \<^verbatim>\<open>nlp\<close>.\<close>

definition regex_clean :: "text_env \<Rightarrow> ustr \<Rightarrow> ustr" where
  "regex_clean env text' =
     (let t1 = replace [13] [32] (replace [10] [32] (str_lower env text'));
          t2 = re_sub URL_PATTERN (\<lambda>caps. []) t1;
          t3 = re_sub EMOJI_PATTERN (\<lambda>caps. []) t2;
          t4 = re_sub (MENTION_PATTERN env) (\<lambda>caps. []) t3;
          t5 = re_sub (PHONE_PATTERN env) (\<lambda>caps. []) t4;
          t6 = re_sub (DATE_PATTERN env) (\<lambda>caps. []) t5;
          t7 = re_sub (TIME_PATTERN env) (\<lambda>caps. []) t6;
          t8 = re_sub (PUNCT_PATTERN env) (\<lambda>caps. [32]) t7;
          t9 = re_sub REPEATED_CHARS (\<lambda>caps. caps ! 0) t8
      in u_strip (re_sub SPACES_PATTERN (\<lambda>caps. [32]) t9))"

text \<open>A text in which some character stands three or more times in a row.\<close>

fun has_run3 :: "'a list \<Rightarrow> bool" where
  "has_run3 (a # b # c # xs) = ((a = b \<and> b = c) \<or> has_run3 (b # c # xs))"
| "has_run3 xs = False"

text \<open>\<^verbatim>\<open>' '.join(tokens)\<close>\<close>

fun join_space :: "ustr list \<Rightarrow> ustr" where
  "join_space [] = []"
| "join_space [t] = t"
| "join_space (t # ts) = t @ [32] @ join_space ts"

text \<open>Lines 92-98: the tokens that pass the filter, and what is joined of each.\<close>

definition kept_tokens :: "text_env \<Rightarrow> token list \<Rightarrow> token list" where
  "kept_tokens env doc =
     filter (\<lambda>token. str_lower env (tok_text token) \<notin> spanish_stopwords env \<and> \<not> tok_like_num token) doc"

definition lemmatize_filter :: "text_env \<Rightarrow> ustr \<Rightarrow> ustr" where
  "lemmatize_filter env text' =
     (let doc = nlp env text';
          tokens = map tok_lower (kept_tokens env doc)
      in join_space tokens)"

text \<open>\<^verbatim>\<open>clean_text(text)\<close>, lines 75-98.\<close>

definition clean_text :: "text_env \<Rightarrow> ustr \<Rightarrow> ustr" where
  "clean_text env text' =
     (if u_strip text' = [] then [] else lemmatize_filter env (regex_clean env text'))"

section \<open>Stand-ins for the libraries in the examples\<close>

text \<open>
  The examples below run the module with small stand-ins for what \<open>text_env\<close> takes
  from the libraries: lowercasing of A-Z, the tokens of a text as its pieces between
  blanks, and a lemma that drops a final \<open>s\<close>.
\<close>

definition ascii_lower :: "ustr \<Rightarrow> ustr" where
  "ascii_lower s = map (\<lambda>c. if 65 \<le> c \<and> c \<le> 90 then c + 32 else c) s"

fun split_blanks :: "ustr \<Rightarrow> ustr \<Rightarrow> ustr list" where
  "split_blanks [] w = (if w = [] then [] else [w])"
| "split_blanks (c # cs) w =
     (if c = 32 then (if w = [] then split_blanks cs [] else w # split_blanks cs [])
      else split_blanks cs (w @ [c]))"

definition example_token :: "ustr \<Rightarrow> token" where
  "example_token w =
     \<lparr>tok_text = w, tok_lower = ascii_lower w,
      tok_lemma = (if w \<noteq> [] \<and> last w = 115 then butlast (ascii_lower w) else ascii_lower w),
      tok_like_num = (w \<noteq> [] \<and> (\<forall>c \<in> set w. 48 \<le> c \<and> c \<le> 57))\<rparr>"

definition example_env :: text_env where
  "example_env =
     \<lparr>str_lower = ascii_lower, alnum_beyond_ascii = (\<lambda>c. False),
      decimal_beyond_ascii = (\<lambda>c. False),
      nlp = (\<lambda>t. map example_token (split_blanks t [])),
      stopwords_spacy = [u ''de'', u ''el''], stopwords_nltk = [u ''el'', u ''la''],
      CUSTOM_STOPWORDS = [u ''jaja'']\<rparr>"

section \<open>pipeline.py: merging the two sources\<close>






section \<open>emotion_analysis.py: the batched classifier\<close>

text \<open>
  \<^verbatim>\<open>config.VALID_EMOTIONS\<close> and \<^verbatim>\<open>config.UNKNOWN_EMOTION_LABEL\<close>, read from the
  environment when the module is imported.
\<close>

record config =
  VALID_EMOTIONS :: "string list"
  UNKNOWN_EMOTION_LABEL :: string

text \<open>
  What \<^verbatim>\<open>json.loads\<close> can return: an object (its members in the order of the text; a
  later member of the same name replaces an earlier one in the Python dict), a string,
  or any other value (number, boolean, null, array), which has neither \<^verbatim>\<open>.get\<close> nor
  \<^verbatim>\<open>.lower\<close>.
\<close>

datatype json = JStr string | JObj "(string \<times> json) list" | JOther

text \<open>
  One remote call, seen from lines 92-113: the call (or reading the content of its
  response) raises, or \<^verbatim>\<open>json.loads\<close> raises \<^verbatim>\<open>JSONDecodeError\<close> on the content, or the
  content parses to a JSON value.
\<close>

datatype completion = Raises | Invalid_json | Json json

text \<open>
  The remote service is outside the program: any function from the call (the start
  index of the chunk, which names the call, and the batch sent in the prompt) to what
  comes back.
\<close>

type_synonym remote = "nat \<Rightarrow> string list \<Rightarrow> completion"

datatype py_error = ValueError | AttributeError

text \<open>\<^verbatim>\<open>parsed_json.get(key, UNKNOWN_EMOTION_LABEL)\<close>: \<^verbatim>\<open>AttributeError\<close> unless the parsed
  value is a dict; the default is returned as a Python string.\<close>

definition json_get :: "json \<Rightarrow> string \<Rightarrow> string \<Rightarrow> py_error + json" where
  "json_get parsed_json key dflt =
     (case parsed_json of
        JObj members \<Rightarrow>
          (case map_of (rev members) key of None \<Rightarrow> Inr (JStr dflt) | Some v \<Rightarrow> Inr v)
      | _ \<Rightarrow> Inl AttributeError)"

text \<open>Lines 117-120: the label of item \<open>i\<close> (0-based) of the batch, or the exception
  that \<^verbatim>\<open>.get\<close> or \<^verbatim>\<open>.lower()\<close> raises.\<close>

definition item_emotion :: "config \<Rightarrow> json \<Rightarrow> nat \<Rightarrow> py_error + string" where
  "item_emotion cfg parsed_json i =
     (case json_get parsed_json (str_nat (i + 1)) (UNKNOWN_EMOTION_LABEL cfg) of
        Inl e \<Rightarrow> Inl e
      | Inr (JStr s) \<Rightarrow>
          (let raw_emo = lower s in
           if raw_emo \<notin> set (map lower (VALID_EMOTIONS cfg))
           then Inr (UNKNOWN_EMOTION_LABEL cfg) else Inr raw_emo)
      | Inr _ \<Rightarrow> Inl AttributeError)"

text \<open>Lines 116-121: the loop over the items appends to \<open>results\<close> as it goes; an
  exception leaves what was appended and is passed on (\<open>True\<close>).\<close>

fun extract_loop :: "config \<Rightarrow> json \<Rightarrow> nat list \<Rightarrow> string list \<Rightarrow> string list \<times> bool" where
  "extract_loop cfg parsed_json [] results = (results, False)"
| "extract_loop cfg parsed_json (i # is) results =
     (case item_emotion cfg parsed_json i of
        Inl e \<Rightarrow> (results, True)
      | Inr raw_emo \<Rightarrow> extract_loop cfg parsed_json is (results @ [raw_emo]))"

text \<open>Lines 111-112 and 126-127: one fallback label per item of the batch.\<close>

definition fill_unknown :: "config \<Rightarrow> string list \<Rightarrow> string list \<Rightarrow> string list" where
  "fill_unknown cfg batch results = results @ replicate (length batch) (UNKNOWN_EMOTION_LABEL cfg)"

text \<open>Lines 92-127: the body of the chunk loop after the call, on the results so far.\<close>

definition process_chunk :: "config \<Rightarrow> completion \<Rightarrow> string list \<Rightarrow> string list \<Rightarrow> string list" where
  "process_chunk cfg response batch results =
     (case response of
        Raises \<Rightarrow> fill_unknown cfg batch results
      | Invalid_json \<Rightarrow> fill_unknown cfg batch results
      | Json parsed_json \<Rightarrow>
          (case extract_loop cfg parsed_json [0..<length batch] results of
             (results', True) \<Rightarrow> fill_unknown cfg batch results'
           | (results', False) \<Rightarrow> results'))"

text \<open>Lines 76-127: \<^verbatim>\<open>for start_idx in range(0, total_texts, max_per_chunk)\<close> with a
  positive step.\<close>

function chunk_loop ::
  "config \<Rightarrow> remote \<Rightarrow> string list \<Rightarrow> nat \<Rightarrow> nat \<Rightarrow> string list \<Rightarrow> string list" where
  "chunk_loop cfg service texts max_per_chunk start_idx results =
     (if max_per_chunk = 0 \<or> length texts \<le> start_idx then results
      else
        let batch = take max_per_chunk (drop start_idx texts) in
        chunk_loop cfg service texts max_per_chunk (start_idx + max_per_chunk)
          (process_chunk cfg (service start_idx batch) batch results))"
  by pat_completeness auto
termination
  by (relation "measure (\<lambda>(cfg, service, texts, m, start_idx, results). length texts - start_idx)")
    auto

declare chunk_loop.simps [simp del]

text \<open>
  \<^verbatim>\<open>classify_texts_in_bulk(texts, max_per_chunk, max_tokens_response)\<close>. A step of 0
  makes \<^verbatim>\<open>range\<close> raise \<^verbatim>\<open>ValueError\<close> outside every handler; a negative step gives
  an empty range. \<^verbatim>\<open>max_tokens_response\<close> only travels to the remote call.
\<close>

definition classify_texts_in_bulk ::
  "config \<Rightarrow> remote \<Rightarrow> string list \<Rightarrow> int \<Rightarrow> py_error + string list" where
  "classify_texts_in_bulk cfg service texts max_per_chunk =
     (if max_per_chunk = 0 then Inl ValueError
      else if max_per_chunk < 0 then Inr []
      else Inr (chunk_loop cfg service texts (nat max_per_chunk) 0 []))"

text \<open>
  A response on which the item loop of lines 116-121 either runs to its end or stops at
  its first item: anything but an object that holds a value that is not a string.
\<close>

fun string_valued :: "completion \<Rightarrow> bool" where
  "string_valued (Json (JObj members)) =
     list_all (\<lambda>(key, v). case v of JStr s \<Rightarrow> True | _ \<Rightarrow> False) members"
| "string_valued response = True"

text \<open>The label of item \<open>i\<close> of a chunk as its response gives it: the fallback label
  when the call raised, the content was not JSON, or the lookup or \<^verbatim>\<open>.lower()\<close> raises.\<close>

definition item_label :: "config \<Rightarrow> completion \<Rightarrow> nat \<Rightarrow> string" where
  "item_label cfg response i =
     (case response of
        Json parsed_json \<Rightarrow>
          (case item_emotion cfg parsed_json i of
             Inr e \<Rightarrow> e
           | Inl err \<Rightarrow> UNKNOWN_EMOTION_LABEL cfg)
      | _ \<Rightarrow> UNKNOWN_EMOTION_LABEL cfg)"

section \<open>Properties of the classifier\<close>






text \<open>
  C1 (the output has one label per input text, whatever the service does). The code
  does not keep this: when the parsed object holds a value that is not a string behind
  a string, the item loop has appended the labels of the earlier items before
  \<^verbatim>\<open>.lower()\<close> raises, and the handler of line 123 then appends one fallback label for
  every item of the batch. Two texts in one chunk, answered by
  \<^verbatim>\<open>{"1": "amor", "2": null}\<close>, come back with three labels.
\<close>

theorem classify_length_slip:
  "classify_texts_in_bulk \<lparr>VALID_EMOTIONS = [''amor''], UNKNOWN_EMOTION_LABEL = ''Neutro''\<rparr>
     (\<lambda>start_idx batch. Json (JObj [(''1'', JStr ''amor''), (''2'', JOther)]))
     [''te quiero'', ''buen dia''] 2
   = Inr [''amor'', ''Neutro'', ''Neutro'']"
  by code_simp

text \<open>
  C3 (a chunk whose call raises gets the fallback label on its items, and the other
  chunks keep their own labels). The labels a failed chunk appends are right, but the
  extra labels of the slip above move every later chunk: of six texts in chunks of
  two, with the first chunk answered by \<^verbatim>\<open>{"1": "amor", "2": null}\<close>, the second by
  \<^verbatim>\<open>{"1": "amor", "2": "amor"}\<close> and the call of the third raising, the label at index 4
  (the first text of the third chunk) is \<open>amor\<close> and seven labels come back.
\<close>

theorem chunk_isolation_slip:
  "classify_texts_in_bulk \<lparr>VALID_EMOTIONS = [''amor''], UNKNOWN_EMOTION_LABEL = ''Neutro''\<rparr>
     (\<lambda>start_idx batch.
        if start_idx = 0 then Json (JObj [(''1'', JStr ''amor''), (''2'', JOther)])
        else if start_idx = 2 then Json (JObj [(''1'', JStr ''amor''), (''2'', JStr ''amor'')])
        else Raises)
     [''a a'', ''b b'', ''c c'', ''d d'', ''e e'', ''f f''] 2
   = Inr [''amor'', ''Neutro'', ''Neutro'', ''amor'', ''amor'', ''Neutro'', ''Neutro'']"
  by code_simp




subsection \<open>Responses without a value that is not a string\<close>

lemma item_emotion_object:
  "list_all (\<lambda>(key, v). case v of JStr s \<Rightarrow> True | _ \<Rightarrow> False) members \<Longrightarrow>
   \<exists>e. item_emotion cfg (JObj members) i = Inr e"
proof -
  assume a: "list_all (\<lambda>(key, v). case v of JStr s \<Rightarrow> True | _ \<Rightarrow> False) members"
  show ?thesis
  proof (cases "map_of (rev members) (str_nat (i + 1))")
    case None
    then show ?thesis by (simp add: item_emotion_def json_get_def Let_def)
  next
    case (Some v)
    then have "(str_nat (i + 1), v) \<in> set members"
      using map_of_SomeD by fastforce
    with a obtain s where "v = JStr s"
      by (auto simp: list_all_iff split: json.splits)
    with Some show ?thesis by (simp add: item_emotion_def json_get_def Let_def)
  qed
qed

lemma item_emotion_not_object:
  "\<not> (\<exists>members. parsed_json = JObj members) \<Longrightarrow>
   item_emotion cfg parsed_json i = Inl AttributeError"
  by (cases parsed_json) (simp_all add: item_emotion_def json_get_def)

lemma extract_loop_all:
  "(\<And>i. i \<in> set is \<Longrightarrow> \<exists>e. item_emotion cfg parsed_json i = Inr e) \<Longrightarrow>
   extract_loop cfg parsed_json is results =
     (results @ map (\<lambda>i. item_label cfg (Json parsed_json) i) is, False)"
proof (induction "is" arbitrary: results)
  case Nil
  show ?case by simp
next
  case (Cons i "is")
  from Cons.prems [of i] obtain e where e: "item_emotion cfg parsed_json i = Inr e" by auto
  have "extract_loop cfg parsed_json (i # is) results =
      extract_loop cfg parsed_json is (results @ [e])"
    using e by simp
  also have "\<dots> = ((results @ [e]) @ map (\<lambda>i. item_label cfg (Json parsed_json) i) is, False)"
    using Cons.prems by (intro Cons.IH) simp
  finally show ?case
    using e by (simp add: item_label_def)
qed

lemma process_chunk_string_valued:
  assumes "string_valued response"
  shows "process_chunk cfg response batch results =
     results @ map (\<lambda>i. item_label cfg response i) [0..<length batch]"
proof (cases response)
  case Raises
  then show ?thesis
    by (simp add: process_chunk_def fill_unknown_def item_label_def map_replicate_const)
next
  case Invalid_json
  then show ?thesis
    by (simp add: process_chunk_def fill_unknown_def item_label_def map_replicate_const)
next
  case (Json parsed_json)
  show ?thesis
  proof (cases "\<exists>members. parsed_json = JObj members")
    case True
    then obtain members where m: "parsed_json = JObj members" by blast
    with assms Json have "\<And>i. \<exists>e. item_emotion cfg parsed_json i = Inr e"
      by (simp add: item_emotion_object)
    then have "extract_loop cfg parsed_json [0..<length batch] results =
        (results @ map (\<lambda>i. item_label cfg (Json parsed_json) i) [0..<length batch], False)"
      by (intro extract_loop_all) blast
    with Json show ?thesis by (simp add: process_chunk_def)
  next
    case False
    then have fail: "\<And>i. item_emotion cfg parsed_json i = Inl AttributeError"
      by (rule item_emotion_not_object)
    then have lab: "\<And>i. item_label cfg response i = UNKNOWN_EMOTION_LABEL cfg"
      using Json by (simp add: item_label_def)
    show ?thesis
    proof (cases "length batch")
      case 0
      with Json show ?thesis by (simp add: process_chunk_def)
    next
      case (Suc n)
      then have "[0..<length batch] = 0 # [1..<length batch]"
        by (simp add: upt_rec)
      then have "extract_loop cfg parsed_json [0..<length batch] results = (results, True)"
        using fail by simp
      then show ?thesis
        using Json lab by (simp add: process_chunk_def fill_unknown_def map_replicate_const)
    qed
  qed
qed

lemma chunk_loop_string_valued:
  "(\<forall>start_idx batch. string_valued (service start_idx batch)) \<Longrightarrow> 0 < m \<Longrightarrow>
   length results = start_idx \<Longrightarrow> start_idx \<le> length texts \<Longrightarrow>
     take start_idx (chunk_loop cfg service texts m start_idx results) = results
     \<and> length (chunk_loop cfg service texts m start_idx results) = length texts
     \<and> (\<forall>q i. i < m \<and> start_idx + q * m + i < length texts \<longrightarrow>
          chunk_loop cfg service texts m start_idx results ! (start_idx + q * m + i) =
            item_label cfg
              (service (start_idx + q * m) (take m (drop (start_idx + q * m) texts))) i)"
proof (induction cfg service texts m start_idx results rule: chunk_loop.induct)
  case (1 cfg service texts m start_idx results)
  note sv = "1.prems"(1) and m = "1.prems"(2) and lres = "1.prems"(3) and le = "1.prems"(4)
  show ?case
  proof (cases "length texts \<le> start_idx")
    case True
    then show ?thesis
      using lres le by (simp add: chunk_loop.simps)
  next
    case False
    define batch where "batch = take m (drop start_idx texts)"
    define results' where "results' = process_chunk cfg (service start_idx batch) batch results"
    have lb: "length batch = min m (length texts - start_idx)"
      by (simp add: batch_def)
    have r': "results' = results @ map (\<lambda>i. item_label cfg (service start_idx batch) i) [0..<length batch]"
      unfolding results'_def using sv by (intro process_chunk_string_valued) blast
    have step: "chunk_loop cfg service texts m start_idx results =
        chunk_loop cfg service texts m (start_idx + m) results'"
      using False m by (subst chunk_loop.simps) (simp add: Let_def batch_def results'_def)
    have cond: "\<not> (m = 0 \<or> length texts \<le> start_idx)"
      using False m by simp
    show ?thesis
    proof (cases "start_idx + m \<le> length texts")
      case True
      then have lr: "length results' = start_idx + m"
        using lres by (simp add: r' lb)
      note ih = "1.IH" [OF cond batch_def, folded results'_def, OF sv m lr True]
      have tk: "take start_idx (chunk_loop cfg service texts m (start_idx + m) results') = results"
      proof -
        have "take start_idx (take (start_idx + m) (chunk_loop cfg service texts m (start_idx + m) results'))
            = take start_idx results'"
          using ih by simp
        then show ?thesis
          using lres by (simp add: r' min_def)
      qed
      have nth: "chunk_loop cfg service texts m (start_idx + m) results' ! (start_idx + q * m + i) =
          item_label cfg (service (start_idx + q * m) (take m (drop (start_idx + q * m) texts))) i"
        if qi: "i < m" "start_idx + q * m + i < length texts" for q i
      proof (cases q)
        case 0
        have "chunk_loop cfg service texts m (start_idx + m) results' ! (start_idx + i)
            = take (start_idx + m) (chunk_loop cfg service texts m (start_idx + m) results') ! (start_idx + i)"
          using qi by simp
        also have "\<dots> = results' ! (start_idx + i)"
          using ih by simp
        also have "\<dots> = item_label cfg (service start_idx batch) i"
          using qi lres True by (simp add: r' nth_append lb)
        finally show ?thesis
          using 0 by (simp add: batch_def)
      next
        case (Suc q')
        have "start_idx + m + q' * m + i < length texts"
          using qi Suc by (simp add: algebra_simps)
        with ih qi(1) have "chunk_loop cfg service texts m (start_idx + m) results' ! (start_idx + m + q' * m + i) =
            item_label cfg (service (start_idx + m + q' * m) (take m (drop (start_idx + m + q' * m) texts))) i"
          by blast
        then show ?thesis
          using Suc by (simp add: algebra_simps)
      qed
      show ?thesis
        unfolding step using tk ih nth by blast
    next
      case False
      then have over: "length texts \<le> start_idx + m" by simp
      have fin: "chunk_loop cfg service texts m (start_idx + m) results' = results'"
        using over by (simp add: chunk_loop.simps)
      have lbt: "length batch = length texts - start_idx"
        using over by (simp add: lb)
      have len: "length results' = length texts"
        using lres le lbt by (simp add: r')
      have nth: "results' ! (start_idx + q * m + i) =
          item_label cfg (service (start_idx + q * m) (take m (drop (start_idx + q * m) texts))) i"
        if qi: "i < m" "start_idx + q * m + i < length texts" for q i
      proof -
        have "q = 0"
        proof (rule ccontr)
          assume "q \<noteq> 0"
          then have "m \<le> q * m" by (cases q) simp_all
          with qi over show False by simp
        qed
        then show ?thesis
          using qi lres lbt by (simp add: r' nth_append batch_def)
      qed
      show ?thesis
        unfolding step fin using lres len nth by (simp add: r')
    qed
  qed
qed

text \<open>
  When no parsed object holds a value that is not a string, the slip does not occur:
  for every chunk size of at least 1, the output has one label per text.
\<close>

theorem classify_length_string_valued:
  assumes "\<forall>start_idx batch. string_valued (service start_idx batch)" and "0 < max_per_chunk"
  shows "\<exists>labels. classify_texts_in_bulk cfg service texts max_per_chunk = Inr labels
           \<and> length labels = length texts"
proof -
  have "0 < nat max_per_chunk" using assms(2) by simp
  from chunk_loop_string_valued [OF assms(1) this, of "[]" 0 texts cfg]
  have "length (chunk_loop cfg service texts (nat max_per_chunk) 0 []) = length texts"
    by simp
  then show ?thesis
    using assms(2) by (simp add: classify_texts_in_bulk_def)
qed

theorem classify_length_string_valued_witness:
  "\<exists>labels. classify_texts_in_bulk \<lparr>VALID_EMOTIONS = [''amor''], UNKNOWN_EMOTION_LABEL = ''Neutro''\<rparr>
       (\<lambda>start_idx batch. if start_idx = 0 then Json (JObj [(''1'', JStr ''amor'')]) else Raises)
       [''te quiero'', ''buen dia'', ''hasta luego''] 2 = Inr labels
     \<and> length labels = length [''te quiero'', ''buen dia'', ''hasta luego'']"
proof -
  have "\<forall>start_idx batch. string_valued
      ((\<lambda>(start_idx :: nat) (batch :: string list).
          if start_idx = 0 then Json (JObj [(''1'', JStr ''amor'')]) else Raises) start_idx batch)"
    by simp
  moreover have "(0 :: int) < 2" by simp
  ultimately show ?thesis
    by (rule classify_length_string_valued)
qed

text \<open>
  On such responses the chunks are isolated: the label at the position of item \<open>i\<close> of
  the chunk that starts at \<open>q * m\<close> comes from the response to that chunk alone, and it
  is the fallback label when the call of that chunk raised or its content was not JSON.
\<close>

theorem classify_chunk_isolation_string_valued:
  assumes "\<forall>start_idx batch. string_valued (service start_idx batch)" and "0 < m"
    and "i < m" and "q * m + i < length texts"
  shows "\<exists>labels. classify_texts_in_bulk cfg service texts (int m) = Inr labels
           \<and> labels ! (q * m + i) =
               item_label cfg (service (q * m) (take m (drop (q * m) texts))) i
           \<and> (service (q * m) (take m (drop (q * m) texts)) = Raises
                \<or> service (q * m) (take m (drop (q * m) texts)) = Invalid_json
              \<longrightarrow> labels ! (q * m + i) = UNKNOWN_EMOTION_LABEL cfg)"
proof -
  from chunk_loop_string_valued [OF assms(1,2), of "[]" 0 texts cfg] assms(3,4)
  have n: "chunk_loop cfg service texts m 0 [] ! (q * m + i) =
      item_label cfg (service (q * m) (take m (drop (q * m) texts))) i"
    by simp
  have c: "classify_texts_in_bulk cfg service texts (int m) = Inr (chunk_loop cfg service texts m 0 [])"
    using assms(2) by (simp add: classify_texts_in_bulk_def)
  show ?thesis
    unfolding c using n by (auto simp: item_label_def)
qed

theorem classify_chunk_isolation_witness:
  "\<exists>labels. classify_texts_in_bulk \<lparr>VALID_EMOTIONS = [''amor''], UNKNOWN_EMOTION_LABEL = ''Neutro''\<rparr>
       (\<lambda>start_idx batch. if start_idx = 2 then Raises else Json (JObj [(''1'', JStr ''amor'')]))
       [''a a'', ''b b'', ''c c'', ''d d'', ''e e''] (int 2) = Inr labels
     \<and> labels ! (1 * 2 + 0) = ''Neutro''"
proof -
  let ?service = "\<lambda>(start_idx :: nat) (batch :: string list).
      if start_idx = 2 then Raises else Json (JObj [(''1'', JStr ''amor'')])"
  let ?cfg = "\<lparr>VALID_EMOTIONS = [''amor''], UNKNOWN_EMOTION_LABEL = ''Neutro''\<rparr>"
  have sv: "\<forall>start_idx batch. string_valued (?service start_idx batch)"
    by simp
  have "(0 :: nat) < 2" "(0 :: nat) < 2" "1 * 2 + 0 < length [''a a'', ''b b'', ''c c'', ''d d'', ''e e'']"
    by simp_all
  from classify_chunk_isolation_string_valued [OF sv this, of ?cfg]
  show ?thesis by auto
qed

section \<open>Properties of the WhatsApp parser\<close>

text \<open>
  C2 (the line \<^verbatim>\<open>3/1/2022, 8:30 a. m. - Ana: Hola\<close> yields one row). The code yields
  none: in the pattern of lines 39-42 the \<open>m\<close> must follow the \<open>a\<close> or its dot at
  once (\<^verbatim>\<open>[ap]\.?m\.?\<close>), so a meridiem written \<open>a. m.\<close> does not match and line 53
  skips the line, although the docstring (line 22), the comment of line 56 and the
  replacement of line 62 all name this form.
\<close>

theorem whatsapp_spaced_meridiem_skipped:
  "re_match whatsapp_pattern ''3/1/2022, 8:30 a. m. - Ana: Hola'' = None
   \<and> parse_whatsapp_lines (Some [''3/1/2022, 8:30 a. m. - Ana: Hola'' @ [CHR 0x0A]]) = []"
  by code_simp

lemma whatsapp_compact_meridiem_parsed:
  "parse_whatsapp_lines (Some [''3/1/2022, 8:30 a.m. - Ana: Hola'' @ [CHR 0x0A]]) =
     [\<lparr>datetime = \<lparr>year = 2022, month = 1, day = 3, hour = 8, minute = 30, second = 0\<rparr>,
       sender = ''Ana'', message = ''Hola''\<rparr>]"
  by code_simp

lemma whatsapp_loop_map_filter:
  "whatsapp_loop lines data = data @ List.map_filter whatsapp_line lines"
  by (induction lines arbitrary: data) (simp_all add: List.map_filter_simps split: option.splits)

text \<open>
  The rows of a file are the rows of its lines, in their order; a line that the pattern
  does not match adds none and the lines after it are still read; a file that cannot
  be read gives no rows.
\<close>

theorem whatsapp_lines_skipped_not_fatal:
  "parse_whatsapp_lines (Some lines) = List.map_filter whatsapp_line lines
   \<and> parse_whatsapp_lines None = []
   \<and> (re_match whatsapp_pattern (strip line) = None \<longrightarrow>
        parse_whatsapp_lines (Some (pre @ line # post)) = parse_whatsapp_lines (Some (pre @ post)))"
proof -
  have "re_match whatsapp_pattern (strip line) = None \<Longrightarrow> whatsapp_line line = None"
    by (simp add: whatsapp_line_def)
  then show ?thesis
    by (auto simp: parse_whatsapp_lines_def whatsapp_loop_map_filter List.map_filter_def)
qed

theorem whatsapp_lines_skipped_witness:
  "parse_whatsapp_lines
     (Some ([''3/1/2022, 8:30 a.m. - Ana: Hola''] @ ''Los mensajes estan cifrados''
            # [''3/1/2022, 8:31 p.m. - Bob: Buenas'']))
   = parse_whatsapp_lines
     (Some ([''3/1/2022, 8:30 a.m. - Ana: Hola''] @ [''3/1/2022, 8:31 p.m. - Bob: Buenas'']))"
proof -
  have "re_match whatsapp_pattern (strip ''Los mensajes estan cifrados'') = None"
    by code_simp
  with whatsapp_lines_skipped_not_fatal
         [of "[''3/1/2022, 8:30 a.m. - Ana: Hola''] @ ''Los mensajes estan cifrados''
               # [''3/1/2022, 8:31 p.m. - Bob: Buenas'']"
             "''Los mensajes estan cifrados''" "[''3/1/2022, 8:30 a.m. - Ana: Hola'']"
             "[''3/1/2022, 8:31 p.m. - Bob: Buenas'']"]
  show ?thesis by blast
qed

section \<open>Properties of the Telegram parser\<close>

lemma telegram_loop_acc:
  "telegram_loop msg_divs last_sender (acc @ rows) = acc @ telegram_loop msg_divs last_sender rows"
proof (induction msg_divs arbitrary: last_sender rows)
  case Nil
  show ?case by simp
next
  case (Cons d ds)
  obtain ls' r where st: "telegram_step d last_sender = (ls', r)"
    by (cases "telegram_step d last_sender")
  show ?case
  proof (cases r)
    case None
    with st Cons.IH show ?thesis by simp
  next
    case (Some row)
    with st Cons.IH [of ls' "rows @ [row]"] show ?thesis by simp
  qed
qed

lemma telegram_loop_append:
  "telegram_loop (pre @ post) last_sender rows =
     telegram_loop post (fold (\<lambda>d ls. fst (telegram_step d ls)) pre last_sender)
       (telegram_loop pre last_sender rows)"
proof (induction pre arbitrary: last_sender rows)
  case Nil
  show ?case by simp
next
  case (Cons d ds)
  obtain ls' r where st: "telegram_step d last_sender = (ls', r)"
    by (cases "telegram_step d last_sender")
  show ?case
    using st Cons.IH by (cases r) simp_all
qed

lemma telegram_step_carried:
  "fst (telegram_step d last_sender) =
     (if div_datetime d = None then last_sender
      else case from_div d of None \<Rightarrow> last_sender | Some name \<Rightarrow> Some name)"
  by (simp add: telegram_step_def Let_def split: option.splits)

lemma carried_senders_read:
  "fold (\<lambda>d ls. fst (telegram_step d ls)) pre last_sender =
     (if senders_read pre = [] then last_sender else Some (last (senders_read pre)))"
proof (induction pre arbitrary: last_sender)
  case Nil
  show ?case by (simp add: senders_read_def List.map_filter_simps)
next
  case (Cons d ds)
  have sr: "senders_read (d # ds) =
      (if div_datetime d = None then senders_read ds
       else case from_div d of None \<Rightarrow> senders_read ds | Some name \<Rightarrow> name # senders_read ds)"
    by (simp add: senders_read_def List.map_filter_simps split: option.splits)
  have "fold (\<lambda>d ls. fst (telegram_step d ls)) (d # ds) last_sender =
      fold (\<lambda>d ls. fst (telegram_step d ls)) ds (fst (telegram_step d last_sender))"
    by simp
  also have "\<dots> = (if senders_read ds = [] then fst (telegram_step d last_sender)
      else Some (last (senders_read ds)))"
    by (rule Cons.IH)
  finally have e: "fold (\<lambda>d ls. fst (telegram_step d ls)) (d # ds) last_sender =
      (if senders_read ds = [] then fst (telegram_step d last_sender)
       else Some (last (senders_read ds)))" .
  show ?case
    by (subst e) (simp add: sr telegram_step_carried split: option.splits)
qed

lemma telegram_step_senderless:
  assumes "from_div d = None" "div_datetime d = Some dt" "text_div d = Some t" "t \<noteq> []"
  shows "telegram_step d last_sender =
     (last_sender,
      Some \<lparr>datetime = dt,
            sender = (case last_sender of None \<Rightarrow> ''Unknown''
                      | Some name \<Rightarrow> if name = [] then ''Unknown'' else name),
            message = t\<rparr>)"
  using assms by (simp add: telegram_step_def split: option.splits)

lemma telegram_loop_prefix:
  "prefix rows (telegram_loop msg_divs last_sender rows)"
  using telegram_loop_acc [of msg_divs last_sender rows "[]"] by simp

text \<open>
  C4, as the code has it. A \<^verbatim>\<open>div\<close> without a sender field that is not a service
  message, has a date that parses and a text that is not empty, is given the last
  sender field that the scan of this call has read before it: the sender field of a
  \<^verbatim>\<open>div\<close> that was skipped as a service message or for its date was never read, and an
  empty sender text counts as none. With no such sender (none read yet, or an empty
  one) the row gets \<open>Unknown\<close>. Every call starts from no sender: the rows depend on
  the document of the call alone, and a first \<^verbatim>\<open>div\<close> without a sender field gets
  \<open>Unknown\<close> in every document.
\<close>

theorem telegram_senderless_inherits:
  assumes "from_div d = None" and "div_datetime d = Some dt"
    and "text_div d = Some t" and "t \<noteq> []"
  shows "prefix
           (parse_telegram_html (Some pre) @
              [\<lparr>datetime = dt,
                sender = (if senders_read pre = [] \<or> last (senders_read pre) = [] then ''Unknown''
                          else last (senders_read pre)),
                message = t\<rparr>])
           (parse_telegram_html (Some (pre @ d # post)))
       \<and> prefix [\<lparr>datetime = dt, sender = ''Unknown'', message = t\<rparr>]
           (parse_telegram_html (Some (d # post)))"
proof -
  have row: "\<And>ls. telegram_step d ls =
      (ls, Some \<lparr>datetime = dt,
             sender = (case ls of None \<Rightarrow> ''Unknown''
                       | Some name \<Rightarrow> if name = [] then ''Unknown'' else name),
             message = t\<rparr>)"
    by (rule telegram_step_senderless [OF assms])
  define ls where "ls = fold (\<lambda>d ls. fst (telegram_step d ls)) pre None"
  have ls: "ls = (if senders_read pre = [] then None else Some (last (senders_read pre)))"
    unfolding ls_def by (rule carried_senders_read)
  define r where "r = \<lparr>datetime = dt,
      sender = (if senders_read pre = [] \<or> last (senders_read pre) = [] then ''Unknown''
                else last (senders_read pre)),
      message = t\<rparr>"
  have "telegram_loop (pre @ d # post) None [] =
      telegram_loop (d # post) ls (telegram_loop pre None [])"
    unfolding ls_def by (rule telegram_loop_append)
  also have "\<dots> = telegram_loop post ls (telegram_loop pre None [] @ [r])"
    using row [of ls] ls by (simp add: r_def)
  finally have "prefix (telegram_loop pre None [] @ [r]) (telegram_loop (pre @ d # post) None [])"
    by (simp add: telegram_loop_prefix)
  moreover have "telegram_loop (d # post) None [] =
      telegram_loop post None [\<lparr>datetime = dt, sender = ''Unknown'', message = t\<rparr>]"
    using row [of None] by simp
  then have "prefix [\<lparr>datetime = dt, sender = ''Unknown'', message = t\<rparr>]
      (telegram_loop (d # post) None [])"
    by (simp add: telegram_loop_prefix)
  ultimately show ?thesis
    by (simp add: parse_telegram_html_def r_def)
qed

theorem telegram_senderless_witness:
  "prefix
     (parse_telegram_html
        (Some [\<lparr>classes = [''message'', ''default'', ''clearfix''],
                date_div = Some (Some ''03.01.2022 18:30:15 UTC-05:00''),
                from_div = Some ''Ana'', text_div = Some ''hola''\<rparr>]) @
      [\<lparr>datetime = \<lparr>year = 2022, month = 1, day = 3, hour = 18, minute = 31, second = 0\<rparr>,
        sender = ''Ana'', message = ''que tal''\<rparr>])
     (parse_telegram_html
        (Some ([\<lparr>classes = [''message'', ''default'', ''clearfix''],
                 date_div = Some (Some ''03.01.2022 18:30:15 UTC-05:00''),
                 from_div = Some ''Ana'', text_div = Some ''hola''\<rparr>] @
               \<lparr>classes = [''message'', ''default'', ''clearfix'', ''joined''],
                 date_div = Some (Some ''03.01.2022 18:31:00 UTC-05:00''),
                 from_div = None, text_div = Some ''que tal''\<rparr> # [])))
   \<and> prefix [\<lparr>datetime = \<lparr>year = 2022, month = 1, day = 3, hour = 18, minute = 31, second = 0\<rparr>,
              sender = ''Unknown'', message = ''que tal''\<rparr>]
       (parse_telegram_html
          (Some (\<lparr>classes = [''message'', ''default'', ''clearfix'', ''joined''],
                  date_div = Some (Some ''03.01.2022 18:31:00 UTC-05:00''),
                  from_div = None, text_div = Some ''que tal''\<rparr> # [])))"
proof -
  let ?a = "\<lparr>classes = [''message'', ''default'', ''clearfix''],
             date_div = Some (Some ''03.01.2022 18:30:15 UTC-05:00''),
             from_div = Some ''Ana'', text_div = Some ''hola''\<rparr>"
  let ?d = "\<lparr>classes = [''message'', ''default'', ''clearfix'', ''joined''],
             date_div = Some (Some ''03.01.2022 18:31:00 UTC-05:00''),
             from_div = None, text_div = Some ''que tal''\<rparr>"
  let ?dt = "\<lparr>year = 2022, month = 1, day = 3, hour = 18, minute = 31, second = 0\<rparr>"
  have h1: "from_div ?d = None" by simp
  have h2: "div_datetime ?d = Some ?dt" by code_simp
  have h3: "text_div ?d = Some ''que tal''" by simp
  have h4: "''que tal'' \<noteq> []" by simp
  have s: "senders_read [?a] = [''Ana'']" by code_simp
  show ?thesis
    using telegram_senderless_inherits [OF h1 h2 h3 h4, of "[?a]" "[]"] s by simp
qed

text \<open>C4 as the spec words it fails on two documents. In the first, the
  sender field nearest before the last \<^verbatim>\<open>div\<close> is \<open>Bob\<close>, on a \<^verbatim>\<open>div\<close> without a date;
  the row gets \<open>Ana\<close>. In the second, the sender field before it is the empty text;
  the row gets \<open>Unknown\<close>.\<close>

theorem telegram_nearest_sender_field_not_inherited:
  "parse_telegram_html
     (Some [\<lparr>classes = [''message'', ''default'', ''clearfix''],
             date_div = Some (Some ''03.01.2022 18:30:15 UTC-05:00''),
             from_div = Some ''Ana'', text_div = Some ''hola''\<rparr>,
            \<lparr>classes = [''message'', ''default'', ''clearfix''],
             date_div = None, from_div = Some ''Bob'', text_div = Some ''buenas''\<rparr>,
            \<lparr>classes = [''message'', ''default'', ''clearfix'', ''joined''],
             date_div = Some (Some ''03.01.2022 18:31:00 UTC-05:00''),
             from_div = None, text_div = Some ''que tal''\<rparr>])
   = [\<lparr>datetime = \<lparr>year = 2022, month = 1, day = 3, hour = 18, minute = 30, second = 15\<rparr>,
       sender = ''Ana'', message = ''hola''\<rparr>,
      \<lparr>datetime = \<lparr>year = 2022, month = 1, day = 3, hour = 18, minute = 31, second = 0\<rparr>,
       sender = ''Ana'', message = ''que tal''\<rparr>]
   \<and> parse_telegram_html
     (Some [\<lparr>classes = [''message'', ''default'', ''clearfix''],
             date_div = Some (Some ''03.01.2022 18:30:15 UTC-05:00''),
             from_div = Some [], text_div = Some ''hola''\<rparr>,
            \<lparr>classes = [''message'', ''default'', ''clearfix'', ''joined''],
             date_div = Some (Some ''03.01.2022 18:31:00 UTC-05:00''),
             from_div = None, text_div = Some ''que tal''\<rparr>])
   = [\<lparr>datetime = \<lparr>year = 2022, month = 1, day = 3, hour = 18, minute = 30, second = 15\<rparr>,
       sender = [], message = ''hola''\<rparr>,
      \<lparr>datetime = \<lparr>year = 2022, month = 1, day = 3, hour = 18, minute = 31, second = 0\<rparr>,
       sender = ''Unknown'', message = ''que tal''\<rparr>]"
  by code_simp

text \<open>
  C10. A \<^verbatim>\<open>div\<close> that is not a service message, whose date parses and which has a
  sender field, sets the carried sender to that field whatever its text: also when it
  has no text container or an empty text and so adds no row. A \<^verbatim>\<open>div\<close> without a
  sender field right after it then gets that sender, although no row carries it.
\<close>

theorem telegram_skipped_div_updates_sender:
  assumes "''service'' \<notin> set (classes d)" and "date_div d = Some (Some date_str)"
    and "strptime_telegram (before_utc date_str) = Some dt" and "from_div d = Some name"
  shows "fst (telegram_step d last_sender) = Some name
       \<and> ((text_div d = None \<or> text_div d = Some []) \<longrightarrow>
            snd (telegram_step d last_sender) = None
          \<and> (\<forall>d' dt' t'. from_div d' = None \<and> div_datetime d' = Some dt'
                \<and> text_div d' = Some t' \<and> t' \<noteq> [] \<and> name \<noteq> [] \<longrightarrow>
              parse_telegram_html (Some (pre @ [d, d'])) =
                parse_telegram_html (Some pre) @
                  [\<lparr>datetime = dt', sender = name, message = t'\<rparr>]))"
proof -
  have dd: "div_datetime d = Some dt"
    using assms by (simp add: div_datetime_def)
  have upd: "fst (telegram_step d last_sender) = Some name"
    using dd assms(4) by (simp add: telegram_step_carried)
  have norow: "\<And>ls. text_div d = None \<or> text_div d = Some [] \<Longrightarrow> telegram_step d ls = (Some name, None)"
    using dd assms(4) by (auto simp: telegram_step_def)
  have later: "parse_telegram_html (Some (pre @ [d, d'])) =
      parse_telegram_html (Some pre) @ [\<lparr>datetime = dt', sender = name, message = t'\<rparr>]"
    if skip: "text_div d = None \<or> text_div d = Some []"
      and d': "from_div d' = None" "div_datetime d' = Some dt'" "text_div d' = Some t'" "t' \<noteq> []"
      and ne: "name \<noteq> []"
    for d' dt' t'
  proof -
    define ls where "ls = fold (\<lambda>d ls. fst (telegram_step d ls)) pre None"
    have "telegram_loop (pre @ [d, d']) None [] = telegram_loop [d, d'] ls (telegram_loop pre None [])"
      unfolding ls_def by (rule telegram_loop_append)
    also have "\<dots> = telegram_loop [d'] (Some name) (telegram_loop pre None [])"
      using norow [OF skip, of ls] by simp
    also have "\<dots> = telegram_loop pre None [] @ [\<lparr>datetime = dt', sender = name, message = t'\<rparr>]"
      using telegram_step_senderless [OF d', of "Some name"] ne by simp
    finally show ?thesis
      by (simp add: parse_telegram_html_def)
  qed
  show ?thesis
    using upd norow later by auto
qed

theorem telegram_skipped_div_witness:
  "fst (telegram_step
          \<lparr>classes = [''message'', ''default'', ''clearfix''],
            date_div = Some (Some ''03.01.2022 18:30:15 UTC-05:00''),
            from_div = Some ''Ana'', text_div = None\<rparr> None) = Some ''Ana''
   \<and> parse_telegram_html
       (Some ([] @
              [\<lparr>classes = [''message'', ''default'', ''clearfix''],
                 date_div = Some (Some ''03.01.2022 18:30:15 UTC-05:00''),
                 from_div = Some ''Ana'', text_div = None\<rparr>,
               \<lparr>classes = [''message'', ''default'', ''clearfix'', ''joined''],
                 date_div = Some (Some ''03.01.2022 18:31:00 UTC-05:00''),
                 from_div = None, text_div = Some ''que tal''\<rparr>]))
     = parse_telegram_html (Some []) @
       [\<lparr>datetime = \<lparr>year = 2022, month = 1, day = 3, hour = 18, minute = 31, second = 0\<rparr>,
         sender = ''Ana'', message = ''que tal''\<rparr>]"
proof -
  let ?d = "\<lparr>classes = [''message'', ''default'', ''clearfix''],
             date_div = Some (Some ''03.01.2022 18:30:15 UTC-05:00''),
             from_div = Some ''Ana'', text_div = None\<rparr>"
  let ?d' = "\<lparr>classes = [''message'', ''default'', ''clearfix'', ''joined''],
             date_div = Some (Some ''03.01.2022 18:31:00 UTC-05:00''),
             from_div = None, text_div = Some ''que tal''\<rparr>"
  let ?dt' = "\<lparr>year = 2022, month = 1, day = 3, hour = 18, minute = 31, second = 0\<rparr>"
  have h1: "''service'' \<notin> set (classes ?d)" by simp
  have h2: "date_div ?d = Some (Some ''03.01.2022 18:30:15 UTC-05:00'')" by simp
  have h3: "strptime_telegram (before_utc ''03.01.2022 18:30:15 UTC-05:00'') =
      Some \<lparr>year = 2022, month = 1, day = 3, hour = 18, minute = 30, second = 15\<rparr>"
    by code_simp
  have h4: "from_div ?d = Some ''Ana''" by simp
  have h5: "div_datetime ?d' = Some ?dt'" by code_simp
  have "from_div ?d' = None \<and> div_datetime ?d' = Some ?dt' \<and> text_div ?d' = Some ''que tal''
      \<and> ''que tal'' \<noteq> [] \<and> ''Ana'' \<noteq> []"
    using h5 by simp
  with telegram_skipped_div_updates_sender [OF h1 h2 h3 h4, of None "[]"]
  show ?thesis by simp
qed

section \<open>Properties of the text cleaning\<close>

lemma rx_seq_Nil_fun: "rx_seq [] = (\<lambda>st. [st])"
  by (rule ext) simp

lemma rx_seq_single: "rx_seq [r] st = rx_item r st"
  by (simp add: rx_seq_Nil_fun)

lemma match_at_run:
  "match_at [Rep 1 None P] prev s =
     (if takeWhile P s = [] then None else Some (length (takeWhile P s), []))"
proof (cases "takeWhile P s = []")
  case True
  then show ?thesis
    by (simp add: match_at_def rx_seq_Nil_fun)
next
  case False
  define n where "n = length (takeWhile P s)"
  have n: "0 < n" "n \<le> length s"
    using False by (simp_all add: n_def length_takeWhile_le)
  then have "rev [1..<Suc n] = n # rev [1..<n]"
    by (cases n) simp_all
  then show ?thesis
    using False n by (simp add: match_at_def rx_seq_Nil_fun n_def [symmetric] advance_def)
qed

lemmas match_at_run' = match_at_run [unfolded One_nat_def]

lemma filter_takeWhile_same: "filter P (takeWhile P xs) = takeWhile P xs"
  by (induction xs) simp_all

lemma findall_run_pieces:
  "pat = [Rep 1 None P] \<Longrightarrow>
   concat (concat (map (\<lambda>p. case p of Kept c \<Rightarrow> [] | Matched m caps \<Rightarrow> [m])
     (re_pieces pat prev s))) = filter P s"
proof (induction pat prev s rule: re_pieces.induct)
  case (1 pat prev)
  then show ?case by (simp add: match_at_run')
next
  case (2 pat prev c cs)
  show ?case
  proof (cases "P c")
    case False
    then have "match_at pat prev (c # cs) = None"
      using "2.prems" by (simp add: match_at_run')
    then have "re_pieces pat prev (c # cs) = Kept c # re_pieces pat (Some c) cs"
      by simp
    then show ?thesis
      using "2.IH"(1) [OF \<open>match_at pat prev (c # cs) = None\<close> "2.prems"] False by simp
  next
    case True
    define n where "n = length (takeWhile P (c # cs))"
    have m: "match_at pat prev (c # cs) = Some (n, [])"
      using True "2.prems" by (simp add: match_at_run' n_def)
    have n0: "n \<noteq> 0"
      using True by (simp add: n_def)
    have tk: "take n (c # cs) = takeWhile P (c # cs)"
      unfolding n_def by (rule takeWhile_eq_take [symmetric])
    have dr: "drop (n - 1) cs = dropWhile P (c # cs)"
    proof -
      have "drop (n - 1) cs = drop n (c # cs)"
        using n0 by (cases n) simp_all
      also have "\<dots> = dropWhile P (c # cs)"
        unfolding n_def by (rule dropWhile_eq_drop [symmetric])
      finally show ?thesis .
    qed
    have ih: "concat (concat (map (\<lambda>p. case p of Kept c \<Rightarrow> [] | Matched m caps \<Rightarrow> [m])
        (re_pieces pat (Some (last (take n (c # cs)))) (drop (n - 1) cs))))
        = filter P (drop (n - 1) cs)"
      using "2.IH"(3) [OF m refl n0 "2.prems"] .
    have "filter P (c # cs) = filter P (takeWhile P (c # cs) @ dropWhile P (c # cs))"
      by (simp only: takeWhile_dropWhile_id)
    also have "\<dots> = takeWhile P (c # cs) @ filter P (dropWhile P (c # cs))"
      by (simp only: filter_append filter_takeWhile_same)
    finally have f: "filter P (c # cs) = take n (c # cs) @ filter P (drop (n - 1) cs)"
      by (simp only: tk dr)
    have step: "re_pieces pat prev (c # cs) =
        Matched (take n (c # cs)) []
          # re_pieces pat (Some (last (take n (c # cs)))) (drop (n - 1) cs)"
      using m n0 by (simp del: take_Cons' drop_Cons')
    show ?thesis
      by (simp only: step list.map piece.case concat.simps concat_append append.simps ih f)
  qed
qed

lemma u_strip_empty: "u_strip s = [] \<longleftrightarrow> (\<forall>c \<in> set s. u_space c)"
proof
  assume "u_strip s = []"
  then have a: "\<forall>x \<in> set (dropWhile u_space s). u_space x"
    by (simp add: u_strip_def)
  have "dropWhile u_space s = []"
  proof (rule ccontr)
    assume ne: "dropWhile u_space s \<noteq> []"
    then have "\<not> u_space (hd (dropWhile u_space s))"
      by (rule hd_dropWhile)
    moreover have "hd (dropWhile u_space s) \<in> set (dropWhile u_space s)"
      using ne by simp
    ultimately show False using a by blast
  qed
  then show "\<forall>c \<in> set s. u_space c"
    by simp
next
  assume "\<forall>c \<in> set s. u_space c"
  then have "dropWhile u_space s = []"
    by simp
  then show "u_strip s = []"
    unfolding u_strip_def by (simp del: dropWhile_eq_Nil_conv)
qed

lemma u_space_bound: "u_space c \<Longrightarrow> c \<le> 12288"
  unfolding u_space_def by linarith

lemma emoji_bound: "is_emoji c \<Longrightarrow> 127456 \<le> c"
  unfolding is_emoji_def by linarith

lemma u_space_not_emoji: "u_space c \<Longrightarrow> \<not> is_emoji c"
  using u_space_bound [of c] emoji_bound [of c] by linarith

lemma extract_emojis_filter: "extract_emojis x = filter is_emoji x"
proof (cases "u_strip x = []")
  case True
  then have "filter is_emoji x = []"
    by (auto simp: u_strip_empty filter_empty_conv u_space_not_emoji)
  with True show ?thesis by (simp add: extract_emojis_def)
next
  case False
  then show ?thesis
    by (simp add: extract_emojis_def re_findall_def EMOJI_PATTERN_def findall_run_pieces)
qed

text \<open>
  C8. \<^verbatim>\<open>extract_emojis\<close> returns the emoji characters of its input, all of them and in
  the order in which they stand (the matches of \<^verbatim>\<open>findall\<close> joined); applying it to its
  own output changes nothing; and a text without an emoji character, the empty and the
  blank text among them, gives the empty text.
\<close>

theorem extract_emojis_idempotent_ordered:
  "extract_emojis (extract_emojis x) = extract_emojis x
   \<and> extract_emojis x = filter is_emoji x
   \<and> concat (re_findall EMOJI_PATTERN x) = filter is_emoji x
   \<and> ((\<forall>c \<in> set x. \<not> is_emoji c) \<longrightarrow> extract_emojis x = [])
   \<and> extract_emojis [] = []
   \<and> ((\<forall>c \<in> set x. u_space c) \<longrightarrow> extract_emojis x = [])"
proof -
  have "concat (re_findall EMOJI_PATTERN x) = filter is_emoji x"
    by (simp add: re_findall_def EMOJI_PATTERN_def findall_run_pieces)
  moreover have "(\<forall>c \<in> set x. u_space c) \<longrightarrow> filter is_emoji x = []"
    by (auto simp: filter_empty_conv u_space_not_emoji)
  ultimately show ?thesis
    by (simp add: extract_emojis_filter filter_empty_conv)
qed

theorem extract_emojis_witness:
  "extract_emojis (extract_emojis (u ''hola '' @ [0x1F600, 0x1F601] @ u '' ya '' @ [0x1F1E0]))
     = [0x1F600, 0x1F601, 0x1F1E0]
   \<and> extract_emojis (u ''hola '' @ [0x1F600, 0x1F601] @ u '' ya '' @ [0x1F1E0])
     = [0x1F600, 0x1F601, 0x1F1E0]
   \<and> extract_emojis (u ''hola, que tal'') = []
   \<and> extract_emojis [32, 9, 32] = []"
proof -
  let ?x = "u ''hola '' @ [0x1F600, 0x1F601] @ u '' ya '' @ [0x1F1E0]"
  have a: "filter is_emoji ?x = [0x1F600, 0x1F601, 0x1F1E0]"
    by code_simp
  have b: "\<forall>c \<in> set (u ''hola, que tal''). \<not> is_emoji c"
    by code_simp
  have c: "\<forall>c \<in> set [32, 9, 32]. u_space c"
    by code_simp
  from extract_emojis_idempotent_ordered [of ?x]
  have i: "extract_emojis (extract_emojis ?x) = extract_emojis ?x"
    and f: "extract_emojis ?x = filter is_emoji ?x"
    by blast+
  from extract_emojis_idempotent_ordered [of "u ''hola, que tal''"] b
  have e2: "extract_emojis (u ''hola, que tal'') = []"
    by blast
  from extract_emojis_idempotent_ordered [of "[32, 9, 32]"] c
  have e3: "extract_emojis [32, 9, 32] = []"
    by blast
  note ff = f [THEN trans, OF a]
  note ii = i [THEN trans, OF ff]
  show ?thesis
    by (intro conjI ii ff e2 e3)
qed

lemma kept_tokens_lemma_update:
  "kept_tokens env (map (\<lambda>tok. tok\<lparr>tok_lemma := f tok\<rparr>) doc) =
     map (\<lambda>tok. tok\<lparr>tok_lemma := f tok\<rparr>) (kept_tokens env doc)"
  unfolding kept_tokens_def by (induction doc) simp_all

lemma lemmatize_filter_ignores_lemma:
  "lemmatize_filter (env\<lparr>nlp := \<lambda>t. map (\<lambda>tok. tok\<lparr>tok_lemma := f tok\<rparr>) (nlp env t)\<rparr>) t
     = lemmatize_filter env t"
proof -
  define env' where "env' = env\<lparr>nlp := \<lambda>t. map (\<lambda>tok. tok\<lparr>tok_lemma := f tok\<rparr>) (nlp env t)\<rparr>"
  have k: "kept_tokens env' doc = kept_tokens env doc" for doc
    by (simp add: kept_tokens_def spanish_stopwords_def env'_def)
  have "map tok_lower (kept_tokens env' (nlp env' t)) = map tok_lower (kept_tokens env (nlp env t))"
    by (simp add: k) (simp add: env'_def kept_tokens_lemma_update o_def)
  then show ?thesis
    by (simp add: lemmatize_filter_def env'_def [symmetric])
qed

text \<open>
  C9 (the surviving lemmas are joined). The filter is as the claim says: a token is
  dropped when its lowercased text is in the union of the three stopword lists or it
  is like a number. What is joined, though, is \<^verbatim>\<open>token.lower_\<close> (line 94), the
  lowercased text of the token, and not \<^verbatim>\<open>token.lemma_\<close>, against the docstring of the
  function (line 67). With a pipeline whose lemma of \<open>gatos\<close> is \<open>gato\<close>, the text
  \<open>Gatos de la casa\<close> comes back as \<open>gatos casa\<close>.
\<close>

theorem clean_text_joins_surface_forms:
  "map tok_lemma (nlp example_env (u ''gatos casa'')) = [u ''gato'', u ''casa'']
   \<and> clean_text example_env (u ''Gatos de la casa'') = u ''gatos casa''"
  by code_simp

subsection \<open>What the cleaned text cannot hold\<close>

lemma re_pieces_Kept_in:
  "Kept x \<in> set (re_pieces pat prev s) \<Longrightarrow> x \<in> set s"
proof (induction pat prev s rule: re_pieces.induct)
  case (1 pat prev)
  then show ?case by (auto split: option.splits)
next
  case (2 pat prev c cs)
  show ?case
  proof (cases "match_at pat prev (c # cs)")
    case None
    with 2 show ?thesis by auto
  next
    case (Some a)
    obtain n caps where a: "a = (n, caps)" by (cases a)
    show ?thesis
    proof (cases "n = 0")
      case True
      with 2 Some a show ?thesis by auto
    next
      case False
      with "2.prems" Some a
      have "Kept x \<in> set (re_pieces pat (Some (last (take n (c # cs)))) (drop (n - 1) cs))"
        by simp
      then have "x \<in> set (drop (n - 1) cs)"
        using "2.IH"(3) [OF Some [unfolded a] refl False] by simp
      then show ?thesis
        by (auto dest: in_set_dropD)
    qed
  qed
qed

lemma re_pieces_Kept_unmatched:
  "Kept x \<in> set (re_pieces pat prev s) \<Longrightarrow>
   \<exists>prev' cs. match_at pat prev' (x # cs) = None \<or> (\<exists>caps. match_at pat prev' (x # cs) = Some (0, caps))"
proof (induction pat prev s rule: re_pieces.induct)
  case (1 pat prev)
  then show ?case by (auto split: option.splits)
next
  case (2 pat prev c cs)
  show ?case
  proof (cases "match_at pat prev (c # cs)")
    case None
    with 2 show ?thesis by auto
  next
    case (Some a)
    obtain n caps where a: "a = (n, caps)" by (cases a)
    show ?thesis
    proof (cases "n = 0")
      case True
      with 2 Some a show ?thesis by auto
    next
      case False
      with "2.prems" Some a
      have "Kept x \<in> set (re_pieces pat (Some (last (take n (c # cs)))) (drop (n - 1) cs))"
        by simp
      then show ?thesis
        using "2.IH"(3) [OF Some [unfolded a] refl False] by simp
    qed
  qed
qed

lemma re_sub_chars:
  "set (re_sub pat (\<lambda>caps. r) s) \<subseteq> set s \<union> set r"
proof
  fix x
  assume "x \<in> set (re_sub pat (\<lambda>caps. r) s)"
  then obtain p where p: "p \<in> set (re_pieces pat None s)" "x \<in> set (render (\<lambda>caps. r) p)"
    by (auto simp: re_sub_def)
  show "x \<in> set s \<union> set r"
  proof (cases p)
    case (Kept c)
    with p show ?thesis by (auto simp: render_def dest: re_pieces_Kept_in)
  next
    case (Matched m caps)
    with p show ?thesis by (simp add: render_def)
  qed
qed

lemma re_sub_Kept:
  "x \<in> set (re_sub pat (\<lambda>caps. r) s) \<Longrightarrow> x \<in> set r \<or> Kept x \<in> set (re_pieces pat None s)"
proof -
  assume "x \<in> set (re_sub pat (\<lambda>caps. r) s)"
  then obtain p where p: "p \<in> set (re_pieces pat None s)" "x \<in> set (render (\<lambda>caps. r) p)"
    by (auto simp: re_sub_def)
  show ?thesis
  proof (cases p)
    case (Kept c)
    with p show ?thesis by (simp add: render_def)
  next
    case (Matched m caps)
    with p show ?thesis by (simp add: render_def)
  qed
qed

lemma match_at_Cls:
  "match_at [Cls Q] prev (c # cs) = (if Q c then Some (1, []) else None)"
  by (simp add: match_at_def rx_seq_Nil_fun)

lemma emoji_sub_clean: "x \<in> set (re_sub EMOJI_PATTERN (\<lambda>caps. []) s) \<Longrightarrow> \<not> is_emoji x"
proof -
  assume "x \<in> set (re_sub EMOJI_PATTERN (\<lambda>caps. []) s)"
  then have "Kept x \<in> set (re_pieces EMOJI_PATTERN None s)"
    by (auto dest: re_sub_Kept)
  then obtain prev' cs where
    "match_at EMOJI_PATTERN prev' (x # cs) = None
     \<or> (\<exists>caps. match_at EMOJI_PATTERN prev' (x # cs) = Some (0, caps))"
    by (blast dest: re_pieces_Kept_unmatched)
  then show ?thesis
    by (auto simp: EMOJI_PATTERN_def match_at_run' split: if_splits)
qed

lemma punct_sub_no_at: "64 \<notin> set (re_sub (PUNCT_PATTERN env) (\<lambda>caps. [32]) s)"
proof
  assume "64 \<in> set (re_sub (PUNCT_PATTERN env) (\<lambda>caps. [32]) s)"
  then have "Kept 64 \<in> set (re_pieces (PUNCT_PATTERN env) None s)"
    by (auto dest: re_sub_Kept)
  then obtain prev' cs where
    "match_at (PUNCT_PATTERN env) prev' (64 # cs) = None
     \<or> (\<exists>caps. match_at (PUNCT_PATTERN env) prev' (64 # cs) = Some (0, caps))"
    by (blast dest: re_pieces_Kept_unmatched)
  then show False
    by (auto simp: PUNCT_PATTERN_def match_at_Cls u_word_def u_space_def split: if_splits)
qed

lemma has_run3_sublist: "has_run3 s \<longleftrightarrow> (\<exists>c. sublist [c, c, c] s)"
proof (induction s rule: has_run3.induct)
  case (1 a b c xs)
  have "(\<exists>x. sublist [x, x, x] (a # b # c # xs)) \<longleftrightarrow>
      (a = b \<and> b = c) \<or> (\<exists>x. sublist [x, x, x] (b # c # xs))"
    by (subst sublist_Cons_right) auto
  with 1 show ?case by simp
qed (simp_all add: sublist_Cons_right)

lemma no_run3_sublist: "sublist xs ys \<Longrightarrow> \<not> has_run3 ys \<Longrightarrow> \<not> has_run3 xs"
  unfolding has_run3_sublist by (blast intro: sublist_order.order_trans)

lemma has_run3_Cons: "has_run3 (c # xs) \<longleftrightarrow> prefix [c, c] xs \<or> has_run3 xs"
proof (cases xs)
  case Nil
  then show ?thesis by simp
next
  case (Cons b ys)
  then show ?thesis by (cases ys) auto
qed

lemma no_run3_append:
  assumes "\<not> has_run3 xs" and "\<not> has_run3 ys"
    and "xs \<noteq> [] \<Longrightarrow> ys \<noteq> [] \<Longrightarrow> last xs \<noteq> hd ys"
  shows "\<not> has_run3 (xs @ ys)"
proof
  assume "has_run3 (xs @ ys)"
  then obtain c where "sublist [c, c, c] (xs @ ys)"
    by (auto simp: has_run3_sublist)
  then consider "sublist [c, c, c] xs" | "sublist [c, c, c] ys"
    | xs1 xs2 where "[c, c, c] = xs1 @ xs2" "suffix xs1 xs" "prefix xs2 ys"
    by (auto simp: sublist_append)
  then show False
  proof cases
    case 1
    with assms(1) show ?thesis by (auto simp: has_run3_sublist)
  next
    case 2
    with assms(2) show ?thesis by (auto simp: has_run3_sublist)
  next
    case 3
    show ?thesis
    proof (cases "xs1 = [] \<or> xs2 = []")
      case True
      then have "sublist [c, c, c] xs \<or> sublist [c, c, c] ys"
        using 3 by (auto intro: suffix_imp_sublist prefix_imp_sublist)
      with assms(1,2) show ?thesis by (auto simp: has_run3_sublist)
    next
      case False
      from 3(2) obtain ps where xs: "xs = ps @ xs1" by (auto simp: suffix_def)
      from 3(3) obtain ss where ys: "ys = xs2 @ ss" by (auto simp: prefix_def)
      have "set (xs1 @ xs2) = {c}"
        using 3(1) [symmetric] by simp
      then have "set xs1 \<subseteq> {c}" "set xs2 \<subseteq> {c}"
        by auto
      moreover have "last xs1 \<in> set xs1" "hd xs2 \<in> set xs2"
        using False by simp_all
      ultimately have "last xs1 = c" "hd xs2 = c"
        by blast+
      then have "last xs = hd ys"
        using xs ys False by simp
      moreover have "xs \<noteq> []" "ys \<noteq> []"
        using xs ys False by simp_all
      ultimately show ?thesis
        using assms(3) by simp
    qed
  qed
qed

lemma rep_count_single: "rep_count [c] s = length (takeWhile (\<lambda>x. x = c) s)"
proof (induction s)
  case Nil
  show ?case by (subst rep_count.simps) simp
next
  case (Cons x xs)
  show ?case
    using Cons.IH by (subst rep_count.simps) auto
qed

lemma match_at_repeated:
  "match_at REPEATED_CHARS prev (c # cs) =
     (if c \<noteq> 10 \<and> 2 \<le> length (takeWhile (\<lambda>x. x = c) cs)
      then Some (Suc (length (takeWhile (\<lambda>x. x = c) cs)), [[c]]) else None)"
proof -
  define n where "n = length (takeWhile (\<lambda>x. x = c) cs)"
  have le: "n \<le> length cs"
    by (simp add: n_def length_takeWhile_le)
  have up: "2 \<le> n \<Longrightarrow> rev [2..<Suc n] = n # rev [2..<n]"
    by simp
  have lo: "\<not> 2 \<le> n \<Longrightarrow> [2..<Suc n] = []"
    by simp
  show ?thesis
  proof (cases "c \<noteq> 10 \<and> 2 \<le> n")
    case True
    then show ?thesis
      using le up
      by (simp add: match_at_def REPEATED_CHARS_def rx_seq_Nil_fun rep_count_single
          n_def [symmetric] advance_def)
  next
    case False
    then show ?thesis
      using lo
      by (auto simp: match_at_def REPEATED_CHARS_def rx_seq_Nil_fun rep_count_single
          n_def [symmetric])
  qed
qed

lemma prefix_two_one: "prefix [a, b] xs \<Longrightarrow> prefix [a] xs"
  by (auto simp: prefix_def)

lemma match_at_repeated_Nil: "match_at REPEATED_CHARS prev [] = None"
  by (simp add: match_at_def REPEATED_CHARS_def)

lemma squeeze_Nil:
  "concat (map (render (\<lambda>caps. caps ! 0)) (re_pieces REPEATED_CHARS prev [])) = []"
  by (simp add: match_at_repeated_Nil)

lemma squeeze_keep:
  assumes "\<not> (c \<noteq> 10 \<and> 2 \<le> length (takeWhile (\<lambda>x. x = c) cs))"
  shows "concat (map (render (\<lambda>caps. caps ! 0)) (re_pieces REPEATED_CHARS prev (c # cs))) =
     c # concat (map (render (\<lambda>caps. caps ! 0)) (re_pieces REPEATED_CHARS (Some c) cs))"
proof -
  have "match_at REPEATED_CHARS prev (c # cs) = None"
    using assms by (simp add: match_at_repeated)
  then show ?thesis
    by (simp add: render_def)
qed

lemma squeeze_run:
  assumes "c \<noteq> 10" and "2 \<le> length (takeWhile (\<lambda>x. x = c) cs)"
  shows "\<exists>prev'. concat (map (render (\<lambda>caps. caps ! 0)) (re_pieces REPEATED_CHARS prev (c # cs))) =
     c # concat (map (render (\<lambda>caps. caps ! 0))
           (re_pieces REPEATED_CHARS prev' (dropWhile (\<lambda>x. x = c) cs)))"
proof -
  define n where "n = length (takeWhile (\<lambda>x. x = c) cs)"
  have m: "match_at REPEATED_CHARS prev (c # cs) = Some (Suc n, [[c]])"
    using assms by (simp add: match_at_repeated n_def)
  have d: "drop n cs = dropWhile (\<lambda>x. x = c) cs"
    unfolding n_def by (rule dropWhile_eq_drop [symmetric])
  have "re_pieces REPEATED_CHARS prev (c # cs) =
      Matched (take (Suc n) (c # cs)) [[c]]
        # re_pieces REPEATED_CHARS (Some (last (take (Suc n) (c # cs)))) (drop n cs)"
    using m by (simp del: take_Suc_Cons)
  then show ?thesis
    by (simp only: d list.map concat.simps render_def piece.case nth_Cons_0 append.simps) blast
qed

lemma squeeze_invariant:
  "10 \<notin> set s \<Longrightarrow>
   \<not> has_run3 (concat (map (render (\<lambda>caps. caps ! 0)) (re_pieces REPEATED_CHARS prev s)))
   \<and> (\<forall>x. prefix [x] (concat (map (render (\<lambda>caps. caps ! 0)) (re_pieces REPEATED_CHARS prev s)))
          \<longrightarrow> prefix [x] s)
   \<and> (\<forall>x. prefix [x, x] (concat (map (render (\<lambda>caps. caps ! 0)) (re_pieces REPEATED_CHARS prev s)))
          \<longrightarrow> prefix [x, x] s)"
proof (induction "length s" arbitrary: s prev rule: less_induct)
  case less
  show ?case
  proof (cases s)
    case Nil
    then show ?thesis by (simp add: match_at_repeated_Nil)
  next
    case (Cons c cs)
    define n where "n = length (takeWhile (\<lambda>x. x = c) cs)"
    have c10: "c \<noteq> 10" using less.prems Cons by auto
    show ?thesis
    proof (cases "2 \<le> n")
      case True
      define r where "r = dropWhile (\<lambda>x. x = c) cs"
      obtain prev' where eq:
        "concat (map (render (\<lambda>caps. caps ! 0)) (re_pieces REPEATED_CHARS prev (c # cs))) =
           c # concat (map (render (\<lambda>caps. caps ! 0)) (re_pieces REPEATED_CHARS prev' r))"
        using squeeze_run [OF c10 True [unfolded n_def]] unfolding r_def by blast
      have len: "length r < length s"
        using Cons by (simp add: r_def length_dropWhile_le less_Suc_eq_le)
      have "set r \<subseteq> set cs"
        unfolding r_def by (auto dest: set_dropWhileD)
      then have r10: "10 \<notin> set r"
        using less.prems Cons by auto
      note ih = less.hyps [OF len r10, of prev']
      have nop: "\<not> prefix [c] r"
      proof
        assume "prefix [c] r"
        then obtain r' where r': "r = c # r'" by (auto simp: prefix_def)
        then have "r \<noteq> []" by simp
        then have "hd r \<noteq> c"
          unfolding r_def using hd_dropWhile [of "\<lambda>x. x = c" cs] by simp
        with r' show False by simp
      qed
      then have nog: "\<not> prefix [c] (concat (map (render (\<lambda>caps. caps ! 0)) (re_pieces REPEATED_CHARS prev' r)))"
        using ih by blast
      then have nog2: "\<not> prefix [c, c] (concat (map (render (\<lambda>caps. caps ! 0)) (re_pieces REPEATED_CHARS prev' r)))"
        by (blast dest: prefix_two_one)
      show ?thesis
        unfolding Cons eq using ih nog nog2 by (simp add: has_run3_Cons)
    next
      case False
      have eq:
        "concat (map (render (\<lambda>caps. caps ! 0)) (re_pieces REPEATED_CHARS prev (c # cs))) =
           c # concat (map (render (\<lambda>caps. caps ! 0)) (re_pieces REPEATED_CHARS (Some c) cs))"
        using False by (intro squeeze_keep) (simp add: n_def)
      have len: "length cs < length s" using Cons by simp
      have cs10: "10 \<notin> set cs" using less.prems Cons by simp
      note ih = less.hyps [OF len cs10, of "Some c"]
      have nocc: "\<not> prefix [c, c] cs"
      proof
        assume "prefix [c, c] cs"
        then obtain cs' where "cs = c # c # cs'" by (auto simp: prefix_def)
        then have "2 \<le> n" by (simp add: n_def)
        with False show False by simp
      qed
      then have nog: "\<not> prefix [c, c] (concat (map (render (\<lambda>caps. caps ! 0)) (re_pieces REPEATED_CHARS (Some c) cs)))"
        using ih by blast
      show ?thesis
        unfolding Cons eq using ih nog by (simp add: has_run3_Cons)
    qed
  qed
qed

lemma squeeze_no_run3:
  "10 \<notin> set s \<Longrightarrow> \<not> has_run3 (re_sub REPEATED_CHARS (\<lambda>caps. caps ! 0) s)"
  unfolding re_sub_def using squeeze_invariant [of s None] by blast

lemma squeeze_Kept_or_cap:
  "p \<in> set (re_pieces REPEATED_CHARS prev s) \<Longrightarrow> set (render (\<lambda>caps. caps ! 0) p) \<subseteq> set s"
proof (induction "length s" arbitrary: s prev rule: less_induct)
  case less
  show ?case
  proof (cases s)
    case Nil
    with less.prems show ?thesis by (simp add: match_at_repeated_Nil)
  next
    case (Cons c cs)
    define n where "n = length (takeWhile (\<lambda>x. x = c) cs)"
    show ?thesis
    proof (cases "c \<noteq> 10 \<and> 2 \<le> n")
      case True
      then have m: "match_at REPEATED_CHARS prev (c # cs) = Some (Suc n, [[c]])"
        by (simp add: match_at_repeated n_def)
      then have "re_pieces REPEATED_CHARS prev (c # cs) =
          Matched (take (Suc n) (c # cs)) [[c]]
            # re_pieces REPEATED_CHARS (Some (last (take (Suc n) (c # cs)))) (drop n cs)"
        by (simp del: take_Suc_Cons)
      with less.prems Cons consider "p = Matched (take (Suc n) (c # cs)) [[c]]"
        | "p \<in> set (re_pieces REPEATED_CHARS (Some (last (take (Suc n) (c # cs)))) (drop n cs))"
        by auto
      then show ?thesis
      proof cases
        case 1
        then show ?thesis using Cons by (simp add: render_def)
      next
        case 2
        have "length (drop n cs) < length s" using Cons by simp
        from less.hyps [OF this 2] have "set (render (\<lambda>caps. caps ! 0) p) \<subseteq> set (drop n cs)" .
        then show ?thesis
          using Cons by (auto dest: in_set_dropD)
      qed
    next
      case False
      then have "match_at REPEATED_CHARS prev (c # cs) = None"
        by (simp add: match_at_repeated n_def)
      with less.prems Cons consider "p = Kept c" | "p \<in> set (re_pieces REPEATED_CHARS (Some c) cs)"
        by auto
      then show ?thesis
      proof cases
        case 1
        then show ?thesis using Cons by (simp add: render_def)
      next
        case 2
        have "length cs < length s" using Cons by simp
        from less.hyps [OF this 2] show ?thesis using Cons by auto
      qed
    qed
  qed
qed

lemma squeeze_chars: "set (re_sub REPEATED_CHARS (\<lambda>caps. caps ! 0) s) \<subseteq> set s"
  by (auto simp: re_sub_def dest: squeeze_Kept_or_cap)

lemma collapse_Nil:
  "concat (map (render (\<lambda>caps. [32])) (re_pieces SPACES_PATTERN prev [])) = []"
  by (simp add: SPACES_PATTERN_def match_at_run')

lemma collapse_keep:
  assumes "\<not> u_space c"
  shows "concat (map (render (\<lambda>caps. [32])) (re_pieces SPACES_PATTERN prev (c # cs))) =
     c # concat (map (render (\<lambda>caps. [32])) (re_pieces SPACES_PATTERN (Some c) cs))"
proof -
  have "match_at SPACES_PATTERN prev (c # cs) = None"
    using assms by (simp add: SPACES_PATTERN_def match_at_run')
  then show ?thesis
    by (simp add: render_def)
qed

lemma collapse_run:
  assumes "u_space c"
  shows "\<exists>prev'. concat (map (render (\<lambda>caps. [32])) (re_pieces SPACES_PATTERN prev (c # cs))) =
     32 # concat (map (render (\<lambda>caps. [32])) (re_pieces SPACES_PATTERN prev' (dropWhile u_space cs)))"
proof -
  define n where "n = length (takeWhile u_space cs)"
  have m: "match_at SPACES_PATTERN prev (c # cs) = Some (Suc n, [])"
    using assms by (simp add: SPACES_PATTERN_def match_at_run' n_def)
  have d: "drop n cs = dropWhile u_space cs"
    unfolding n_def by (rule dropWhile_eq_drop [symmetric])
  have "re_pieces SPACES_PATTERN prev (c # cs) =
      Matched (take (Suc n) (c # cs)) []
        # re_pieces SPACES_PATTERN (Some (last (take (Suc n) (c # cs)))) (drop n cs)"
    using m by (simp del: take_Suc_Cons)
  then show ?thesis
    by (simp only: d list.map concat.simps render_def piece.case append.simps) blast
qed

lemma u_space_32: "u_space 32"
  by (simp add: u_space_def)

lemma collapse_invariant:
  "(\<not> has_run3 s \<longrightarrow>
      \<not> has_run3 (concat (map (render (\<lambda>caps. [32])) (re_pieces SPACES_PATTERN prev s))))
   \<and> (\<forall>x. prefix [x] (concat (map (render (\<lambda>caps. [32])) (re_pieces SPACES_PATTERN prev s)))
          \<longrightarrow> prefix [x] s \<or> (x = 32 \<and> s \<noteq> [] \<and> u_space (hd s)))
   \<and> (\<forall>x. prefix [x, x] (concat (map (render (\<lambda>caps. [32])) (re_pieces SPACES_PATTERN prev s)))
          \<longrightarrow> prefix [x, x] s)"
proof (induction "length s" arbitrary: s prev rule: less_induct)
  case less
  show ?case
  proof (cases s)
    case Nil
    then show ?thesis by (simp add: SPACES_PATTERN_def match_at_run')
  next
    case (Cons c cs)
    show ?thesis
    proof (cases "u_space c")
      case True
      define r where "r = dropWhile u_space cs"
      obtain prev' where eq:
        "concat (map (render (\<lambda>caps. [32])) (re_pieces SPACES_PATTERN prev (c # cs))) =
           32 # concat (map (render (\<lambda>caps. [32])) (re_pieces SPACES_PATTERN prev' r))"
        using collapse_run [OF True] unfolding r_def by blast
      have len: "length r < length s"
        using Cons by (simp add: r_def length_dropWhile_le less_Suc_eq_le)
      note ih = less.hyps [OF len, of prev']
      have sub: "sublist r s"
        unfolding r_def Cons
        by (metis sublist_Cons_right suffix_dropWhile suffix_imp_sublist)
      have nosp: "r \<noteq> [] \<Longrightarrow> \<not> u_space (hd r)"
        unfolding r_def by (rule hd_dropWhile)
      have nog: "\<not> prefix [32] (concat (map (render (\<lambda>caps. [32])) (re_pieces SPACES_PATTERN prev' r)))"
      proof
        assume "prefix [32] (concat (map (render (\<lambda>caps. [32])) (re_pieces SPACES_PATTERN prev' r)))"
        with ih have "prefix [32] r \<or> (r \<noteq> [] \<and> u_space (hd r))" by blast
        then have "r \<noteq> [] \<and> u_space (hd r)"
          using u_space_32 by (auto simp: prefix_def)
        with nosp show False by blast
      qed
      then have nog2: "\<not> prefix [32, 32] (concat (map (render (\<lambda>caps. [32])) (re_pieces SPACES_PATTERN prev' r)))"
        by (blast dest: prefix_two_one)
      have run: "\<not> has_run3 r" if "\<not> has_run3 s"
        using no_run3_sublist [OF sub that] .
      show ?thesis
        unfolding Cons eq using ih nog nog2 run [unfolded Cons] True
        by (auto simp: has_run3_Cons)
    next
      case False
      have eq:
        "concat (map (render (\<lambda>caps. [32])) (re_pieces SPACES_PATTERN prev (c # cs))) =
           c # concat (map (render (\<lambda>caps. [32])) (re_pieces SPACES_PATTERN (Some c) cs))"
        by (rule collapse_keep [OF False])
      have len: "length cs < length s" using Cons by simp
      note ih = less.hyps [OF len, of "Some c"]
      have one: "prefix [c] cs"
        if "prefix [c] (concat (map (render (\<lambda>caps. [32])) (re_pieces SPACES_PATTERN (Some c) cs)))"
      proof -
        from that ih have "prefix [c] cs \<or> (c = 32 \<and> cs \<noteq> [] \<and> u_space (hd cs))" by blast
        then show ?thesis
          using False u_space_32 by auto
      qed
      have two: "prefix [c, c] cs"
        if "prefix [c, c] (concat (map (render (\<lambda>caps. [32])) (re_pieces SPACES_PATTERN (Some c) cs)))"
        using that ih by blast
      have nog: "\<not> prefix [c, c] (concat (map (render (\<lambda>caps. [32])) (re_pieces SPACES_PATTERN (Some c) cs)))"
        if "\<not> has_run3 s"
      proof
        assume "prefix [c, c] (concat (map (render (\<lambda>caps. [32])) (re_pieces SPACES_PATTERN (Some c) cs)))"
        then have "prefix [c, c] cs" by (rule two)
        then have "has_run3 (c # cs)" by (simp add: has_run3_Cons)
        with that Cons show False by simp
      qed
      have tail: "\<not> has_run3 cs" if "\<not> has_run3 s"
        using that Cons by (simp add: has_run3_Cons)
      show ?thesis
        unfolding Cons eq using ih one nog [unfolded Cons] tail [unfolded Cons]
        by (auto simp: has_run3_Cons)
    qed
  qed
qed

lemma collapse_no_run3:
  "\<not> has_run3 s \<Longrightarrow> \<not> has_run3 (re_sub SPACES_PATTERN (\<lambda>caps. [32]) s)"
  unfolding re_sub_def using collapse_invariant [of s None] by blast

lemma u_strip_sublist: "sublist (u_strip s) s"
proof -
  have "prefix (rev (dropWhile u_space (rev (dropWhile u_space s)))) (dropWhile u_space s)"
    by (metis suffix_dropWhile suffix_to_prefix rev_rev_ident)
  moreover have "suffix (dropWhile u_space s) s"
    by (rule suffix_dropWhile)
  ultimately show ?thesis
    unfolding u_strip_def
    by (meson prefix_imp_sublist suffix_imp_sublist sublist_order.order_trans)
qed

lemma replace_single: "replace [a] [b] s = map (\<lambda>c. if c = a then b else c) s"
proof -
  have "replace_from [a] [b] s = map (\<lambda>c. if c = a then b else c) s"
    by (induction s) auto
  then show ?thesis by (simp add: replace_def)
qed

lemma regex_clean_facts:
  "(\<forall>c \<in> set (regex_clean env t). \<not> is_emoji c)
   \<and> 64 \<notin> set (regex_clean env t)
   \<and> \<not> has_run3 (regex_clean env t)"
proof -
  define t1 where "t1 = replace [13] [32] (replace [10] [32] (str_lower env t))"
  define t2 where "t2 = re_sub URL_PATTERN (\<lambda>caps. []) t1"
  define t3 where "t3 = re_sub EMOJI_PATTERN (\<lambda>caps. []) t2"
  define t4 where "t4 = re_sub (MENTION_PATTERN env) (\<lambda>caps. []) t3"
  define t5 where "t5 = re_sub (PHONE_PATTERN env) (\<lambda>caps. []) t4"
  define t6 where "t6 = re_sub (DATE_PATTERN env) (\<lambda>caps. []) t5"
  define t7 where "t7 = re_sub (TIME_PATTERN env) (\<lambda>caps. []) t6"
  define t8 where "t8 = re_sub (PUNCT_PATTERN env) (\<lambda>caps. [32]) t7"
  define t9 where "t9 = re_sub REPEATED_CHARS (\<lambda>caps. caps ! 0) t8"
  define t10 where "t10 = re_sub SPACES_PATTERN (\<lambda>caps. [32]) t9"
  have rc: "regex_clean env t = u_strip t10"
    by (simp add: regex_clean_def Let_def t1_def t2_def t3_def t4_def t5_def t6_def t7_def
        t8_def t9_def t10_def)
  have s10: "set (u_strip t10) \<subseteq> set t10"
    using u_strip_sublist [of t10] by (rule set_mono_sublist)
  have c2: "set t2 \<subseteq> set t1" unfolding t2_def using re_sub_chars [of URL_PATTERN "[]" t1] by simp
  have c4: "set t4 \<subseteq> set t3"
    unfolding t4_def using re_sub_chars [of "MENTION_PATTERN env" "[]" t3] by simp
  have c5: "set t5 \<subseteq> set t4"
    unfolding t5_def using re_sub_chars [of "PHONE_PATTERN env" "[]" t4] by simp
  have c6: "set t6 \<subseteq> set t5"
    unfolding t6_def using re_sub_chars [of "DATE_PATTERN env" "[]" t5] by simp
  have c7: "set t7 \<subseteq> set t6"
    unfolding t7_def using re_sub_chars [of "TIME_PATTERN env" "[]" t6] by simp
  have c8: "set t8 \<subseteq> set t7 \<union> {32}"
    unfolding t8_def using re_sub_chars [of "PUNCT_PATTERN env" "[32]" t7] by simp
  have c9: "set t9 \<subseteq> set t8"
    unfolding t9_def by (rule squeeze_chars)
  have c10: "set t10 \<subseteq> set t9 \<union> {32}"
    unfolding t10_def using re_sub_chars [of SPACES_PATTERN "[32]" t9] by simp
  have e3: "\<forall>c \<in> set t3. \<not> is_emoji c"
    unfolding t3_def by (blast dest: emoji_sub_clean)
  have e32: "\<not> is_emoji 32"
    by (simp add: is_emoji_def)
  have emoji: "\<forall>c \<in> set (u_strip t10). \<not> is_emoji c"
  proof
    fix c
    assume "c \<in> set (u_strip t10)"
    with s10 c10 c9 c8 c7 c6 c5 c4 have "c \<in> set t3 \<or> c = 32" by blast
    with e3 e32 show "\<not> is_emoji c" by blast
  qed
  have a8: "64 \<notin> set t8"
    unfolding t8_def by (rule punct_sub_no_at)
  have at: "64 \<notin> set (u_strip t10)"
    using a8 s10 c10 c9 by auto
  have n1: "10 \<notin> set t1"
    by (auto simp: t1_def replace_single)
  have c3: "set t3 \<subseteq> set t2"
    unfolding t3_def using re_sub_chars [of EMOJI_PATTERN "[]" t2] by simp
  have "set t8 \<subseteq> set t1 \<union> {32}"
    using c2 c3 c4 c5 c6 c7 c8 by blast
  then have n8: "10 \<notin> set t8"
    using n1 by auto
  have "\<not> has_run3 t9"
    unfolding t9_def by (rule squeeze_no_run3 [OF n8])
  then have "\<not> has_run3 t10"
    unfolding t10_def by (rule collapse_no_run3)
  then have run: "\<not> has_run3 (u_strip t10)"
    by (rule no_run3_sublist [OF u_strip_sublist])
  show ?thesis
    unfolding rc using emoji at run by blast
qed

lemma join_space_chars: "set (join_space ws) \<subseteq> \<Union> (set ` set ws) \<union> {32}"
  by (induction ws rule: join_space.induct) auto

lemma join_space_hd: "ws \<noteq> [] \<Longrightarrow> hd ws \<noteq> [] \<Longrightarrow>
   join_space ws \<noteq> [] \<and> hd (join_space ws) = hd (hd ws)"
  by (induction ws rule: join_space.induct) auto

lemma join_space_no_run3:
  "(\<forall>w \<in> set ws. w \<noteq> [] \<and> 32 \<notin> set w \<and> \<not> has_run3 w) \<Longrightarrow> \<not> has_run3 (join_space ws)"
proof (induction ws rule: join_space.induct)
  case 1
  show ?case by simp
next
  case (2 t)
  then show ?case by simp
next
  case (3 t v va)
  define J where "J = join_space (v # va)"
  have J: "\<not> has_run3 J" using 3 by (simp add: J_def)
  have hd: "J \<noteq> []" "hd J = hd v"
    using join_space_hd [of "v # va"] 3(2) by (simp_all add: J_def)
  have v: "v \<noteq> []" "32 \<notin> set v" using 3(2) by simp_all
  have "hd v \<in> set v" using v(1) by simp
  with v(2) have "hd v \<noteq> 32" by metis
  then have "hd J \<noteq> 32" using hd(2) by simp
  then have "\<not> prefix [32, 32] J" using hd(1) by (cases J) auto
  then have r1: "\<not> has_run3 (32 # J)" using J by (simp add: has_run3_Cons)
  have t: "t \<noteq> []" "32 \<notin> set t" "\<not> has_run3 t" using 3(2) by simp_all
  then have "last t \<noteq> 32" by (metis last_in_set)
  then have "\<not> has_run3 (t @ 32 # J)"
    using t(3) r1 by (intro no_run3_append) simp_all
  then show ?case
    by (simp add: J_def)
qed

lemma match_at_chr_fail:
  "s = [] \<or> hd s \<noteq> a \<Longrightarrow> match_at (chr a # pat) prev s = None"
  by (cases s) (auto simp: match_at_def chr_def)

lemma mention_pieces: "64 \<notin> set s \<Longrightarrow> re_pieces (MENTION_PATTERN env) prev s = map Kept s"
proof (induction s arbitrary: prev)
  case Nil
  show ?case by (simp add: MENTION_PATTERN_def match_at_chr_fail)
next
  case (Cons c cs)
  then have "match_at (MENTION_PATTERN env) prev (c # cs) = None"
    by (simp add: MENTION_PATTERN_def match_at_chr_fail)
  with Cons show ?case by simp
qed

lemma no_at_no_mention: "64 \<notin> set s \<Longrightarrow> re_findall (MENTION_PATTERN env) s = []"
  by (simp add: re_findall_def mention_pieces)

text \<open>
  C7. The text that \<^verbatim>\<open>clean_text\<close> returns has no character of the emoji ranges, no
  \<open>@\<close> at all and hence no match of the mention pattern, and no character three
  times in a row. What the function returns is made of the tokens of the spaCy
  pipeline, which is outside the program; the theorem takes of it what its tokenizer
  gives on the text it is handed (single blanks between words, lowercased): the
  lowercase form of every token is a piece of that text, not empty and without a blank.
\<close>

theorem clean_text_output_clean:
  assumes "\<forall>token \<in> set (nlp env (regex_clean env text')).
             tok_lower token \<noteq> [] \<and> 32 \<notin> set (tok_lower token)
             \<and> sublist (tok_lower token) (regex_clean env text')"
  shows "(\<forall>c \<in> set (clean_text env text'). \<not> is_emoji c)
       \<and> 64 \<notin> set (clean_text env text')
       \<and> re_findall (MENTION_PATTERN env) (clean_text env text') = []
       \<and> \<not> has_run3 (clean_text env text')"
proof (cases "u_strip text' = []")
  case True
  then show ?thesis
    by (simp add: clean_text_def re_findall_def MENTION_PATTERN_def match_at_chr_fail)
next
  case False
  define t where "t = regex_clean env text'"
  define ws where "ws = map tok_lower (kept_tokens env (nlp env t))"
  have out: "clean_text env text' = join_space ws"
    using False by (simp add: clean_text_def lemmatize_filter_def t_def ws_def)
  have facts: "\<forall>c \<in> set t. \<not> is_emoji c" "64 \<notin> set t" "\<not> has_run3 t"
    using regex_clean_facts [of env text'] by (simp_all add: t_def)
  have w: "w \<noteq> [] \<and> 32 \<notin> set w \<and> sublist w t" if "w \<in> set ws" for w
    using that assms by (auto simp: ws_def kept_tokens_def t_def)
  have sub: "set w \<subseteq> set t" if "w \<in> set ws" for w
    using set_mono_sublist [of w t] w [OF that] by blast
  have chars: "set (join_space ws) \<subseteq> set t \<union> {32}"
    using join_space_chars [of ws] sub by blast
  have e32: "\<not> is_emoji 32"
    by (simp add: is_emoji_def)
  have emoji: "\<forall>c \<in> set (join_space ws). \<not> is_emoji c"
    using chars facts(1) e32 by blast
  have at: "64 \<notin> set (join_space ws)"
    using chars facts(2) by auto
  have "\<forall>w \<in> set ws. w \<noteq> [] \<and> 32 \<notin> set w \<and> \<not> has_run3 w"
  proof
    fix w
    assume "w \<in> set ws"
    from w [OF this] no_run3_sublist [of w t] facts(3)
    show "w \<noteq> [] \<and> 32 \<notin> set w \<and> \<not> has_run3 w" by blast
  qed
  then have run: "\<not> has_run3 (join_space ws)"
    by (rule join_space_no_run3)
  show ?thesis
    unfolding out using emoji at run no_at_no_mention [OF at] by blast
qed

theorem clean_text_output_witness:
  "filter is_emoji (clean_text example_env
        (u ''Holaaaa @ana mira www.x.com '' @ [0x1F600, 0x1F600] @ u '' el 3/1/2022 jajajaja!!!''))
      = []
   \<and> 64 \<notin> set (clean_text example_env
        (u ''Holaaaa @ana mira www.x.com '' @ [0x1F600, 0x1F600] @ u '' el 3/1/2022 jajajaja!!!''))
   \<and> \<not> has_run3 (clean_text example_env
        (u ''Holaaaa @ana mira www.x.com '' @ [0x1F600, 0x1F600] @ u '' el 3/1/2022 jajajaja!!!''))
   \<and> clean_text example_env
        (u ''Holaaaa @ana mira www.x.com '' @ [0x1F600, 0x1F600] @ u '' el 3/1/2022 jajajaja!!!'')
      = u ''hola mira jajajaja''"
proof -
  let ?x = "u ''Holaaaa @ana mira www.x.com '' @ [0x1F600, 0x1F600] @ u '' el 3/1/2022 jajajaja!!!''"
  have h: "\<forall>token \<in> set (nlp example_env (regex_clean example_env ?x)).
             tok_lower token \<noteq> [] \<and> 32 \<notin> set (tok_lower token)
             \<and> sublist (tok_lower token) (regex_clean example_env ?x)"
    by code_simp
  have v: "clean_text example_env ?x = u ''hola mira jajajaja''"
    by code_simp
  from clean_text_output_clean [OF h] v show ?thesis
    by (simp only: filter_empty_conv) blast
qed

section \<open>Properties of the merge\<close>






end
